theory Spec2Isabelle
  imports Main "HOL-Library.Word" "HOL-Library.Sublist"
begin

unbundle bit_operations_syntax

section \<open>Strings of the JavaScript runtime\<close>

text \<open>
  A JavaScript string is a sequence of UTF-16 code units. The program under study
  (\<^verbatim>\<open>ext/js/display/display-ai.js\<close>, class \<^verbatim>\<open>DisplayAi\<close>) receives bytes from the
  network, decodes them as UTF-8 and works on such strings, so bytes and code units are
  kept apart. \<open>js\<close> writes an ASCII literal as a JavaScript string.
\<close>

type_synonym unit16 = "16 word"
type_synonym jsstring = "unit16 list"
type_synonym byte = "8 word"

definition js :: "string \<Rightarrow> jsstring" where
  "js s = map of_char s"

definition ascii_bytes :: "string \<Rightarrow> byte list" where
  "ascii_bytes s = map of_char s"

text \<open>
  \<^verbatim>\<open>String.prototype.trim\<close> and \<^verbatim>\<open>trimEnd\<close> strip the ECMAScript WhiteSpace and
  LineTerminator code points: TAB, LF, VT, FF, CR, SP, NBSP, U+1680, U+2000..U+200A,
  U+2028, U+2029, U+202F, U+205F, U+3000 and U+FEFF.
\<close>

definition isWhiteSpace :: "unit16 \<Rightarrow> bool" where
  "isWhiteSpace c \<longleftrightarrow>
     c = 0x09 \<or> c = 0x0A \<or> c = 0x0B \<or> c = 0x0C \<or> c = 0x0D \<or> c = 0x20 \<or> c = 0xA0 \<or>
     c = 0x1680 \<or> (0x2000 \<le> c \<and> c \<le> 0x200A) \<or> c = 0x2028 \<or> c = 0x2029 \<or>
     c = 0x202F \<or> c = 0x205F \<or> c = 0x3000 \<or> c = 0xFEFF"

definition trimStart :: "jsstring \<Rightarrow> jsstring" where
  "trimStart s = dropWhile isWhiteSpace s"

definition trimEnd :: "jsstring \<Rightarrow> jsstring" where
  "trimEnd s = rev (dropWhile isWhiteSpace (rev s))"

definition trim :: "jsstring \<Rightarrow> jsstring" where
  "trim s = trimEnd (trimStart s)"

definition startsWith :: "jsstring \<Rightarrow> jsstring \<Rightarrow> bool" where
  "startsWith s p \<longleftrightarrow> take (length p) s = p"

definition endsWith :: "jsstring \<Rightarrow> jsstring \<Rightarrow> bool" where
  "endsWith s p \<longleftrightarrow> length p \<le> length s \<and> drop (length s - length p) s = p"

text \<open>
  \<^verbatim>\<open>buffer.indexOf('\n')\<close>: the position of the first occurrence; JavaScript's \<open>-1\<close> is
  \<open>None\<close> here.
\<close>

fun indexOf :: "jsstring \<Rightarrow> unit16 \<Rightarrow> nat option" where
  "indexOf [] c = None"
| "indexOf (x # xs) c = (if x = c then Some 0 else map_option Suc (indexOf xs c))"

text \<open>\<^verbatim>\<open>String(n)\<close> for a non-negative integer: its decimal digits.\<close>

fun decimal :: "nat \<Rightarrow> jsstring" where
  "decimal n = (if n < 10 then [0x30 + of_nat n] else decimal (n div 10) @ [0x30 + of_nat (n mod 10)])"

declare decimal.simps [simp del]

section \<open>JSON values and \<^verbatim>\<open>JSON.parse\<close>\<close>

text \<open>
  The values \<^verbatim>\<open>JSON.parse\<close> can return. \<open>JNull\<close> is JavaScript's \<^verbatim>\<open>null\<close>. A number is
  kept as its lexeme: the program never computes with a number. An object keeps its
  members in source order; a later duplicate key wins on lookup, as in ECMAScript.
\<close>

datatype json =
    JNull
  | JBool bool
  | JNum jsstring
  | JStr jsstring
  | JArr "json list"
  | JObj "(jsstring \<times> json) list"

text \<open>
  \<^verbatim>\<open>JSON.parse\<close> is a builtin; it is modelled as the pushdown recogniser of the JSON
  grammar (ECMA-404, as ECMA-262 requires), reading one code unit at a time. The state is
  what the parser is in the middle of (\<open>lex\<close>) and the stack of enclosing arrays and
  objects. \<open>None\<close> from \<open>JSON_parse\<close> is the \<^verbatim>\<open>SyntaxError\<close> the builtin throws.
\<close>

datatype numstate = NMinus | NZero | NInt | NDot | NFrac | NE | NESign | NExp

datatype frame =
    FArr "json list"
  | FObj "(jsstring \<times> json) list"
  | FKey "(jsstring \<times> json) list" jsstring

datatype lex =
    LValue
  | LValueOrClose
  | LKeyOrClose
  | LKey
  | LColon
  | LAfter
  | LStr bool jsstring
  | LEsc bool jsstring
  | LUni bool jsstring nat unit16
  | LNum numstate jsstring
  | LLit jsstring json
  | LDone json
  | LErr

type_synonym pstate = "lex \<times> frame list"

definition isJsonWs :: "unit16 \<Rightarrow> bool" where
  "isJsonWs c \<longleftrightarrow> c = 0x09 \<or> c = 0x0A \<or> c = 0x0D \<or> c = 0x20"

definition isDigit :: "unit16 \<Rightarrow> bool" where
  "isDigit c \<longleftrightarrow> 0x30 \<le> c \<and> c \<le> 0x39"

text \<open>A value is complete: it is the result, an array element or an object member.\<close>

fun complete :: "json \<Rightarrow> frame list \<Rightarrow> pstate" where
  "complete v [] = (LDone v, [])"
| "complete v (FArr es # st) = (LAfter, FArr (es @ [v]) # st)"
| "complete v (FKey kvs k # st) = (LAfter, FObj (kvs @ [(k, v)]) # st)"
| "complete v (FObj kvs # st) = (LErr, [])"

definition start_value :: "unit16 \<Rightarrow> frame list \<Rightarrow> pstate" where
  "start_value c st =
     (if c = 0x7B then (LKeyOrClose, FObj [] # st)
      else if c = 0x5B then (LValueOrClose, FArr [] # st)
      else if c = 0x22 then (LStr False [], st)
      else if c = 0x2D then (LNum NMinus [c], st)
      else if c = 0x30 then (LNum NZero [c], st)
      else if 0x31 \<le> c \<and> c \<le> 0x39 then (LNum NInt [c], st)
      else if c = 0x74 then (LLit (js ''rue'') (JBool True), st)
      else if c = 0x66 then (LLit (js ''alse'') (JBool False), st)
      else if c = 0x6E then (LLit (js ''ull'') JNull, st)
      else (LErr, []))"

definition close_array :: "frame list \<Rightarrow> pstate" where
  "close_array st = (case st of FArr es # st' \<Rightarrow> complete (JArr es) st' | _ \<Rightarrow> (LErr, []))"

definition close_object :: "frame list \<Rightarrow> pstate" where
  "close_object st = (case st of FObj kvs # st' \<Rightarrow> complete (JObj kvs) st' | _ \<Rightarrow> (LErr, []))"

definition end_string :: "bool \<Rightarrow> jsstring \<Rightarrow> frame list \<Rightarrow> pstate" where
  "end_string is_key acc st =
     (if is_key then (case st of FObj kvs # st' \<Rightarrow> (LColon, FKey kvs acc # st') | _ \<Rightarrow> (LErr, []))
      else complete (JStr acc) st)"

text \<open>The single-character escapes after a backslash.\<close>

definition escape :: "unit16 \<Rightarrow> unit16 option" where
  "escape c =
     (if c = 0x22 \<or> c = 0x5C \<or> c = 0x2F then Some c
      else if c = 0x62 then Some 0x08
      else if c = 0x66 then Some 0x0C
      else if c = 0x6E then Some 0x0A
      else if c = 0x72 then Some 0x0D
      else if c = 0x74 then Some 0x09
      else None)"

definition hexval :: "unit16 \<Rightarrow> unit16 option" where
  "hexval c =
     (if 0x30 \<le> c \<and> c \<le> 0x39 then Some (c - 0x30)
      else if 0x61 \<le> c \<and> c \<le> 0x66 then Some (c - 0x61 + 10)
      else if 0x41 \<le> c \<and> c \<le> 0x46 then Some (c - 0x41 + 10)
      else None)"

text \<open>
  The number grammar: \<open>-? (0 | [1-9][0-9]*) (. [0-9]+)? ([eE] [+-]? [0-9]+)?\<close>.
  \<open>num_step\<close> is \<open>None\<close> when the code unit does not continue the number.
\<close>

fun num_step :: "numstate \<Rightarrow> unit16 \<Rightarrow> numstate option" where
  "num_step NMinus c = (if c = 0x30 then Some NZero else if isDigit c then Some NInt else None)"
| "num_step NZero c = (if c = 0x2E then Some NDot else if c = 0x65 \<or> c = 0x45 then Some NE else None)"
| "num_step NInt c =
     (if isDigit c then Some NInt else if c = 0x2E then Some NDot
      else if c = 0x65 \<or> c = 0x45 then Some NE else None)"
| "num_step NDot c = (if isDigit c then Some NFrac else None)"
| "num_step NFrac c = (if isDigit c then Some NFrac else if c = 0x65 \<or> c = 0x45 then Some NE else None)"
| "num_step NE c = (if c = 0x2B \<or> c = 0x2D then Some NESign else if isDigit c then Some NExp else None)"
| "num_step NESign c = (if isDigit c then Some NExp else None)"
| "num_step NExp c = (if isDigit c then Some NExp else None)"

fun num_final :: "numstate \<Rightarrow> bool" where
  "num_final NZero = True"
| "num_final NInt = True"
| "num_final NFrac = True"
| "num_final NExp = True"
| "num_final _ = False"

fun step_plain :: "pstate \<Rightarrow> unit16 \<Rightarrow> pstate" where
  "step_plain (LValue, st) c = (if isJsonWs c then (LValue, st) else start_value c st)"
| "step_plain (LValueOrClose, st) c =
     (if isJsonWs c then (LValueOrClose, st)
      else if c = 0x5D then close_array st
      else start_value c st)"
| "step_plain (LKeyOrClose, st) c =
     (if isJsonWs c then (LKeyOrClose, st)
      else if c = 0x7D then close_object st
      else if c = 0x22 then (LStr True [], st)
      else (LErr, []))"
| "step_plain (LKey, st) c =
     (if isJsonWs c then (LKey, st)
      else if c = 0x22 then (LStr True [], st)
      else (LErr, []))"
| "step_plain (LColon, st) c =
     (if isJsonWs c then (LColon, st)
      else if c = 0x3A then (LValue, st)
      else (LErr, []))"
| "step_plain (LAfter, st) c =
     (if isJsonWs c then (LAfter, st)
      else if c = 0x2C then
        (case st of FArr es # st' \<Rightarrow> (LValue, st) | FObj kvs # st' \<Rightarrow> (LKey, st) | _ \<Rightarrow> (LErr, []))
      else if c = 0x5D then close_array st
      else if c = 0x7D then close_object st
      else (LErr, []))"
| "step_plain (LStr is_key acc, st) c =
     (if c = 0x22 then end_string is_key acc st
      else if c = 0x5C then (LEsc is_key acc, st)
      else if c < 0x20 then (LErr, [])
      else (LStr is_key (acc @ [c]), st))"
| "step_plain (LEsc is_key acc, st) c =
     (case escape c of
        Some e \<Rightarrow> (LStr is_key (acc @ [e]), st)
      | None \<Rightarrow> if c = 0x75 then (LUni is_key acc 0 0, st) else (LErr, []))"
| "step_plain (LUni is_key acc n v, st) c =
     (case hexval c of
        None \<Rightarrow> (LErr, [])
      | Some h \<Rightarrow>
          if n = 3 then (LStr is_key (acc @ [v * 16 + h]), st)
          else (LUni is_key acc (n + 1) (v * 16 + h), st))"
| "step_plain (LLit remaining v, st) c =
     (case remaining of
        [] \<Rightarrow> (LErr, [])
      | r # rs \<Rightarrow>
          if c = r then (if rs = [] then complete v st else (LLit rs v, st))
          else (LErr, []))"
| "step_plain (LDone v, st) c = (if isJsonWs c then (LDone v, st) else (LErr, []))"
| "step_plain (LNum ns lx, st) c = (LErr, [])"
| "step_plain (LErr, st) c = (LErr, [])"

text \<open>
  A number has no closing delimiter: the first code unit that does not continue it ends
  it, and is then read in the state after the number.
\<close>

definition step :: "pstate \<Rightarrow> unit16 \<Rightarrow> pstate" where
  "step ps c =
     (case ps of
        (LNum ns lx, st) \<Rightarrow>
          (case num_step ns c of
             Some ns' \<Rightarrow> (LNum ns' (lx @ [c]), st)
           | None \<Rightarrow> if num_final ns then step_plain (complete (JNum lx) st) c else (LErr, []))
      | _ \<Rightarrow> step_plain ps c)"

fun finish :: "pstate \<Rightarrow> json option" where
  "finish (LDone v, st) = Some v"
| "finish (LNum ns lx, []) = (if num_final ns then Some (JNum lx) else None)"
| "finish _ = None"

definition JSON_parse :: "jsstring \<Rightarrow> json option" where
  "JSON_parse s = finish (foldl step (LValue, []) s)"

text \<open>
  \<^verbatim>\<open>typeof x === 'object' && x !== null\<close> holds of arrays and objects. A property read
  \<^verbatim>\<open>x.name\<close> on such a value is \<^verbatim>\<open>undefined\<close> (\<open>None\<close>) unless \<open>x\<close> is an object with
  that member; none of the names this program reads is inherited from a prototype.
\<close>

fun is_object :: "json \<Rightarrow> bool" where
  "is_object (JArr es) = True"
| "is_object (JObj kvs) = True"
| "is_object _ = False"

fun get_prop :: "json \<Rightarrow> jsstring \<Rightarrow> json option" where
  "get_prop (JObj kvs) k = map_of (rev kvs) k"
| "get_prop _ k = None"

section \<open>\<^verbatim>\<open>_tryParseJson\<close>\<close>

text \<open>
  The source returns \<^verbatim>\<open>null\<close> unless the trimmed text starts with an opening and ends
  with a closing brace and \<^verbatim>\<open>JSON.parse\<close> accepts it; the \<^verbatim>\<open>catch\<close> turns the parser's
  exception into \<^verbatim>\<open>null\<close>. The argument is a string at every call site.
\<close>

definition tryParseJson :: "jsstring \<Rightarrow> json" where
  "tryParseJson text_arg =
     (let trimmed = trim text_arg in
      if \<not> startsWith trimmed (js ''{'') \<or> \<not> endsWith trimmed (js ''}'') then JNull
      else (case JSON_parse trimmed of Some v \<Rightarrow> v | None \<Rightarrow> JNull))"

section \<open>\<^verbatim>\<open>_getStreamDeltaContent\<close>\<close>

text \<open>
  \<open>content_of x\<close> is the test shared by the two branches of the source: \<open>x\<close> is an object
  (not \<^verbatim>\<open>undefined\<close>, not \<^verbatim>\<open>null\<close>) whose \<^verbatim>\<open>content\<close> is a string.
\<close>

definition content_of :: "json option \<Rightarrow> jsstring option" where
  "content_of x =
     (case x of
        None \<Rightarrow> None
      | Some obj \<Rightarrow>
          if is_object obj then
            (case get_prop obj (js ''content'') of Some (JStr c) \<Rightarrow> Some c | _ \<Rightarrow> None)
          else None)"

definition getStreamDeltaContent :: "json \<Rightarrow> jsstring" where
  "getStreamDeltaContent data =
     (if \<not> is_object data then []
      else (case get_prop data (js ''choices'') of
              Some (JArr (choice0 # others)) \<Rightarrow>
                if \<not> is_object choice0 then []
                else (case content_of (get_prop choice0 (js ''delta'')) of
                        Some c \<Rightarrow> c
                      | None \<Rightarrow>
                          (case content_of (get_prop choice0 (js ''message'')) of
                             Some c \<Rightarrow> c
                           | None \<Rightarrow> []))
            | _ \<Rightarrow> []))"

section \<open>\<^verbatim>\<open>TextDecoder('utf-8')\<close> in streaming mode\<close>

text \<open>
  The source calls \<^verbatim>\<open>decoder.decode(value, {stream: true})\<close> on every chunk and never
  flushes. The decoder is the UTF-8 decoder of the WHATWG Encoding Standard: bytes of an
  unfinished sequence stay in the decoder's state until the next chunk, a malformed
  sequence yields U+FFFD (the decoder is not fatal), and the first code point, when it is
  U+FEFF, is dropped as a byte order mark. Scalar values above U+FFFF become surrogate
  pairs.
\<close>

record text_decoder =
  code_point :: nat
  bytes_seen :: nat
  bytes_needed :: nat
  lower_boundary :: byte
  upper_boundary :: byte
  bom_seen :: bool

definition new_decoder :: text_decoder where
  "new_decoder =
     \<lparr>code_point = 0, bytes_seen = 0, bytes_needed = 0,
      lower_boundary = 0x80, upper_boundary = 0xBF, bom_seen = False\<rparr>"

definition utf8_lead :: "text_decoder \<Rightarrow> byte \<Rightarrow> text_decoder \<times> nat list" where
  "utf8_lead d b =
     (if b \<le> 0x7F then (d, [unat b])
      else if 0xC2 \<le> b \<and> b \<le> 0xDF then
        (d\<lparr>bytes_needed := 1, code_point := unat (b AND 0x1F)\<rparr>, [])
      else if 0xE0 \<le> b \<and> b \<le> 0xEF then
        (d\<lparr>lower_boundary := (if b = 0xE0 then 0xA0 else lower_boundary d),
           upper_boundary := (if b = 0xED then 0x9F else upper_boundary d),
           bytes_needed := 2, code_point := unat (b AND 0x0F)\<rparr>, [])
      else if 0xF0 \<le> b \<and> b \<le> 0xF4 then
        (d\<lparr>lower_boundary := (if b = 0xF0 then 0x90 else lower_boundary d),
           upper_boundary := (if b = 0xF4 then 0x8F else upper_boundary d),
           bytes_needed := 3, code_point := unat (b AND 0x07)\<rparr>, [])
      else (d, [0xFFFD]))"

definition utf8_reset :: "text_decoder \<Rightarrow> text_decoder" where
  "utf8_reset d =
     d\<lparr>code_point := 0, bytes_needed := 0, bytes_seen := 0,
       lower_boundary := 0x80, upper_boundary := 0xBF\<rparr>"

definition utf8_byte :: "text_decoder \<Rightarrow> byte \<Rightarrow> text_decoder \<times> nat list" where
  "utf8_byte d b =
     (if bytes_needed d = 0 then utf8_lead d b
      else if b < lower_boundary d \<or> upper_boundary d < b then
        (let (d1, out) = utf8_lead (utf8_reset d) b in (d1, 0xFFFD # out))
      else
        (let d1 = d\<lparr>lower_boundary := 0x80, upper_boundary := 0xBF,
                     code_point := code_point d * 64 + unat (b AND 0x3F),
                     bytes_seen := bytes_seen d + 1\<rparr>
         in if bytes_seen d1 \<noteq> bytes_needed d1 then (d1, [])
            else (utf8_reset d1, [code_point d1])))"

definition utf16 :: "nat \<Rightarrow> jsstring" where
  "utf16 cp =
     (if cp < 0x10000 then [of_nat cp]
      else [of_nat (0xD800 + (cp - 0x10000) div 0x400), of_nat (0xDC00 + (cp - 0x10000) mod 0x400)])"

fun serialize :: "text_decoder \<Rightarrow> nat list \<Rightarrow> text_decoder \<times> jsstring" where
  "serialize d [] = (d, [])"
| "serialize d (cp # cps) =
     (if bom_seen d then (let (d', out) = serialize d cps in (d', utf16 cp @ out))
      else (let (d', out) = serialize (d\<lparr>bom_seen := True\<rparr>) cps
            in (d', (if cp = 0xFEFF then [] else utf16 cp) @ out)))"

fun decode :: "text_decoder \<Rightarrow> byte list \<Rightarrow> text_decoder \<times> jsstring" where
  "decode d [] = (d, [])"
| "decode d (b # bs) =
     (let (d1, cps) = utf8_byte d b;
          (d2, out1) = serialize d1 cps;
          (d3, out2) = decode d2 bs
      in (d3, out1 @ out2))"

section \<open>The read loop of \<^verbatim>\<open>_fetchCompletionStreaming\<close>\<close>

text \<open>
  The local variables \<^verbatim>\<open>buffer\<close> and \<^verbatim>\<open>result\<close>, with two traces kept for the
  statements below: the arguments of the calls of \<^verbatim>\<open>onText\<close>, in order, and the
  values of \<^verbatim>\<open>line\<close> taken from the buffer, in order.
\<close>

record reader_state =
  buffer :: jsstring
  result :: jsstring
  onText_calls :: "jsstring list"
  lines_read :: "jsstring list"

definition new_reader :: reader_state where
  "new_reader = \<lparr>buffer = [], result = [], onText_calls = [], lines_read = []\<rparr>"

text \<open>
  \<open>Returned s\<close>: the function has executed \<^verbatim>\<open>return result\<close> in state \<open>s\<close>.
  \<open>Pending s\<close>: the loop goes on.
\<close>

datatype outcome = Returned reader_state | Pending reader_state

text \<open>The body of the inner loop after a line has been cut off the buffer.\<close>

definition handle_line :: "jsstring \<Rightarrow> reader_state \<Rightarrow> outcome" where
  "handle_line line s =
     (if \<not> startsWith line (js ''data:'') then Pending s
      else
        (let dataStr = trim (drop 5 line) in
         if dataStr = js ''[DONE]'' then
           Returned (s\<lparr>onText_calls := onText_calls s @ [result s]\<rparr>)
         else
           (case JSON_parse dataStr of
              None \<Rightarrow> Pending s
            | Some data \<Rightarrow>
                (let delta = getStreamDeltaContent data in
                 if length delta > 0 then
                   Pending (s\<lparr>result := result s @ delta,
                              onText_calls := onText_calls s @ [result s @ delta]\<rparr>)
                 else Pending s))))"

lemma handle_line_buffer:
  "handle_line line s = Pending s' \<Longrightarrow> buffer s' = buffer s"
  by (auto simp: handle_line_def Let_def split: if_splits option.splits)

lemma indexOf_less: "indexOf xs c = Some i \<Longrightarrow> i < length xs"
  by (induction xs arbitrary: i) (auto split: if_splits)

function inner_loop :: "reader_state \<Rightarrow> outcome" where
  "inner_loop s =
     (case indexOf (buffer s) 0x0A of
        None \<Rightarrow> Pending s
      | Some lineEnd \<Rightarrow>
          (case handle_line (trimEnd (take lineEnd (buffer s)))
                  (s\<lparr>buffer := drop (lineEnd + 1) (buffer s),
                     lines_read := lines_read s @ [trimEnd (take lineEnd (buffer s))]\<rparr>) of
             Returned s' \<Rightarrow> Returned s'
           | Pending s' \<Rightarrow> inner_loop s'))"
  by pat_completeness auto
termination
proof (relation "measure (\<lambda>s. length (buffer s))")
  show "wf (measure (\<lambda>s. length (buffer s)))" by simp
next
  fix s :: reader_state and lineEnd s'
  assume i: "indexOf (buffer s) 0x0A = Some lineEnd"
    and h: "handle_line (trimEnd (take lineEnd (buffer s)))
              (s\<lparr>buffer := drop (lineEnd + 1) (buffer s),
                 lines_read := lines_read s @ [trimEnd (take lineEnd (buffer s))]\<rparr>) = Pending s'"
  from handle_line_buffer [OF h] have "buffer s' = drop (lineEnd + 1) (buffer s)" by simp
  with indexOf_less [OF i] show "(s', s) \<in> measure (\<lambda>s. length (buffer s))" by simp
qed

declare inner_loop.simps [simp del]

text \<open>
  What \<^verbatim>\<open>reader.read()\<close> delivers: chunks, then either the end of the stream or a
  rejection. A stream that stays silent is ended by the abort of the timer, which is a
  rejection.
\<close>

datatype js_error =
    DOMException jsstring jsstring
  | TypeError jsstring
  | Error jsstring

datatype stream_end = EndOfStream | ReadRejected js_error

fun read_loop ::
  "text_decoder \<Rightarrow> reader_state \<Rightarrow> byte list list \<Rightarrow> stream_end \<Rightarrow> (js_error + jsstring) \<times> reader_state"
where
  "read_loop d s [] EndOfStream =
     (let final = (if length (result s) > 0 then result s else trim (buffer s))
      in (Inr final, s\<lparr>onText_calls := onText_calls s @ [final]\<rparr>))"
| "read_loop d s [] (ReadRejected e) = (Inl e, s)"
| "read_loop d s (v # vs) t =
     (let (d', decoded) = decode d v in
      case inner_loop (s\<lparr>buffer := buffer s @ decoded\<rparr>) of
        Returned s' \<Rightarrow> (Inr (result s'), s')
      | Pending s' \<Rightarrow> read_loop d' s' vs t)"

section \<open>\<^verbatim>\<open>_fetchCompletionStreaming\<close>\<close>

text \<open>
  The argument object of the call (without the callback, whose calls are recorded) and
  the request handed to \<^verbatim>\<open>fetch\<close>. The request body is kept as the JSON value given to
  \<^verbatim>\<open>JSON.stringify\<close>.
\<close>

record details =
  apiUrl :: jsstring
  apiKey :: jsstring
  model :: jsstring
  prompt :: jsstring

record request =
  url :: jsstring
  headers :: "(jsstring \<times> jsstring) list"
  body_json :: json

definition build_request :: "'a details_scheme \<Rightarrow> request" where
  "build_request a =
     \<lparr>url = apiUrl a,
      headers =
        [(js ''Content-Type'', js ''application/json'')] @
        (if length (apiKey a) > 0 then [(js ''Authorization'', js ''Bearer '' @ apiKey a)] else []),
      body_json =
        JObj ([(js ''messages'', JArr [JObj [(js ''role'', JStr (js ''user'')), (js ''content'', JStr (prompt a))]]),
               (js ''stream'', JBool True),
               (js ''response_format'', JObj [(js ''type'', JStr (js ''json_object''))])] @
              (if length (model a) > 0 then [(js ''model'', JStr (model a))] else []))\<rparr>"

text \<open>
  What the platform answers: \<^verbatim>\<open>fetch\<close> rejects or resolves with a response; the response
  has a status, the outcome of \<^verbatim>\<open>response.text()\<close>, and a body stream or \<^verbatim>\<open>null\<close>.
\<close>

record response =
  resp_status :: nat
  resp_text :: "js_error + jsstring"
  resp_body :: "(byte list list \<times> stream_end) option"

definition response_ok :: "response \<Rightarrow> bool" where
  "response_ok r \<longleftrightarrow> 200 \<le> resp_status r \<and> resp_status r \<le> 299"

datatype fetch_outcome = FetchRejected js_error | FetchResolved response

text \<open>
  What a call does to its surroundings, in order: \<open>SetTimeout ms\<close> arms the timer that
  aborts the controller whose signal the request carries, \<open>Fetch\<close> sends the request,
  \<open>OnText\<close> is a call of the callback, \<open>ClearTimeout\<close> is the \<^verbatim>\<open>finally\<close> clause.
\<close>

datatype effect = SetTimeout nat | Fetch request | OnText jsstring | ClearTimeout

text \<open>The \<^verbatim>\<open>try\<close> block: what it returns or throws, and the calls of \<^verbatim>\<open>onText\<close> it made.\<close>

definition try_block :: "fetch_outcome \<Rightarrow> (js_error + jsstring) \<times> jsstring list" where
  "try_block answer =
     (case answer of
        FetchRejected e \<Rightarrow> (Inl e, [])
      | FetchResolved r \<Rightarrow>
          if \<not> response_ok r then
            (case resp_text r of
               Inl e \<Rightarrow> (Inl e, [])
             | Inr t \<Rightarrow>
                 (Inl (Error (js ''AI request failed ('' @ decimal (resp_status r) @ js ''): '' @ take 500 t)), []))
          else
            (case resp_body r of
               None \<Rightarrow>
                 (case resp_text r of
                    Inl e \<Rightarrow> (Inl e, [])
                  | Inr data \<Rightarrow> (Inr data, [data]))
             | Some (chunks, t) \<Rightarrow>
                 (let (res, s) = read_loop new_decoder new_reader chunks t
                  in (res, onText_calls s))))"

definition is_abort :: "js_error \<Rightarrow> bool" where
  "is_abort e = (case e of DOMException name msg \<Rightarrow> name = js ''AbortError'' | _ \<Rightarrow> False)"

definition catch_clause :: "js_error \<Rightarrow> js_error" where
  "catch_clause e = (if is_abort e then Error (js ''AI request timed out'') else e)"

definition fetchCompletionStreaming ::
  "'a details_scheme \<Rightarrow> fetch_outcome \<Rightarrow> effect list \<times> (js_error + jsstring)"
where
  "fetchCompletionStreaming a answer =
     (let (res, calls) = try_block answer
      in ([SetTimeout 20000, Fetch (build_request a)] @ map OnText calls @ [ClearTimeout],
          (case res of Inl e \<Rightarrow> Inl (catch_clause e) | Inr v \<Rightarrow> Inr v)))"

section \<open>\<^verbatim>\<open>_buildPrompt\<close>\<close>

definition buildPrompt :: "jsstring \<Rightarrow> jsstring \<Rightarrow> jsstring \<Rightarrow> jsstring" where
  \<open>buildPrompt style word ctx =
     (let style2 = trim style;
          styleBlock =
            (if length style2 > 0
             then js ''\<newline>\<newline>Style requirements:\<newline>'' @ style2 @ js ''\<newline>''
             else [])
      in js ''You are a language-learning assistant.\<newline>'' @
         js ''Return a single JSON object and NOTHING else (no markdown, no code fences, no comments).\<newline>'' @
         js ''The JSON must be valid, UTF-8, and use double quotes.\<newline>'' @
         js ''Output schema:\<newline>'' @
         js ''{\<newline>'' @
         js ''  "title": string,\<newline>'' @
         js ''  "word": string,\<newline>'' @
         js ''  "meaning": string,\<newline>'' @
         js ''  "meaning_in_context": string,\<newline>'' @
         js ''  "usage": string,\<newline>'' @
         js ''  "examples": [{"text": string, "explain": string}]\<newline>'' @
         js ''}\<newline>'' @
         styleBlock @
         js ''\<newline>Input:\<newline>'' @
         js ''word: '' @ word @ js ''\<newline>'' @
         js ''context: '' @ ctx @ js ''\<newline>'')\<close>

section \<open>The result pane\<close>

text \<open>
  The part of the DOM the class writes: a node is a text node or a \<^verbatim>\<open>div\<close> with its
  \<^verbatim>\<open>className\<close> and children. Assigning \<^verbatim>\<open>textContent\<close> replaces all children by one
  text node, or by nothing when the string is empty.
\<close>

datatype node = TextNode jsstring | Element jsstring "node list"

definition text_children :: "jsstring \<Rightarrow> node list" where
  "text_children v = (if v = [] then [] else [TextNode v])"

definition div_text :: "jsstring \<Rightarrow> jsstring \<Rightarrow> node" where
  "div_text cls v = Element cls (text_children v)"

text \<open>\<^verbatim>\<open>typeof data.k === 'string' ? data.k : ''\<close>\<close>

definition string_field :: "json \<Rightarrow> jsstring \<Rightarrow> jsstring" where
  "string_field data k = (case get_prop data k of Some (JStr v) \<Rightarrow> v | _ \<Rightarrow> [])"

text \<open>\<^verbatim>\<open>Array.isArray(data.examples) ? data.examples : []\<close>\<close>

definition array_field :: "json \<Rightarrow> jsstring \<Rightarrow> json list" where
  "array_field data k = (case get_prop data k of Some (JArr es) \<Rightarrow> es | _ \<Rightarrow> [])"

text \<open>
  \<^verbatim>\<open>String(value)\<close> for a value that is not an object. For a number the lexeme stands in
  for the printed double; the branch is not reached from \<open>tryParseJson\<close>, whose results
  are objects.
\<close>

fun js_String :: "json \<Rightarrow> jsstring" where
  "js_String JNull = js ''null''"
| "js_String (JBool b) = (if b then js ''true'' else js ''false'')"
| "js_String (JNum lx) = lx"
| "js_String (JStr v) = v"
| "js_String _ = []"

text \<open>The local function \<^verbatim>\<open>addSection\<close>, on the children of the content element.\<close>

definition addSection :: "jsstring \<Rightarrow> jsstring \<Rightarrow> node list \<Rightarrow> node list" where
  "addSection sectionTitle bodyText children =
     (if length (trim bodyText) = 0 then children
      else children @
        [Element (js ''ai-explanation-section'')
           [div_text (js ''ai-explanation-section-title'') sectionTitle,
            div_text (js ''ai-explanation-section-body'') bodyText]])"

text \<open>One turn of the loop over \<^verbatim>\<open>examples\<close>, on the children of the list element.\<close>

definition add_example :: "node list \<Rightarrow> json \<Rightarrow> node list" where
  "add_example items example =
     (if \<not> is_object example then items
      else
        (let text_v = string_field example (js ''text'');
             explain = string_field example (js ''explain'')
         in if length text_v = 0 \<and> length explain = 0 then items
            else items @
              [Element (js ''ai-explanation-example'')
                 ((if length text_v > 0 then [div_text (js ''ai-explanation-example-text'') text_v] else []) @
                  (if length explain > 0 then [div_text (js ''ai-explanation-example-explain'') explain] else []))]))"

definition render_children :: "json \<Rightarrow> node list" where
  "render_children data =
     (let title = string_field data (js ''title'');
          word = string_field data (js ''word'');
          meaning = string_field data (js ''meaning'');
          meaningInContext = string_field data (js ''meaning_in_context'');
          usage = string_field data (js ''usage'');
          examples = array_field data (js ''examples'');
          titleNode = div_text (js ''ai-explanation-render-title'')
                        (if length title > 0 then title else if length word > 0 then word else js ''AI'');
          header = Element (js ''ai-explanation-render-header'')
                     ([titleNode] @
                      (if length word > 0 then [div_text (js ''ai-explanation-render-badge'') word] else []));
          c1 = [] @ [header];
          c2 = addSection (js ''Meaning'') meaning c1;
          c3 = addSection (js ''In context'') meaningInContext c2;
          c4 = addSection (js ''Usage'') usage c3
      in if length examples > 0 then
           c4 @ [Element (js ''ai-explanation-section'')
                   [div_text (js ''ai-explanation-section-title'') (js ''Examples''),
                    Element (js ''ai-explanation-examples'') (foldl add_example [] examples)]]
         else c4)"

section \<open>The class \<^verbatim>\<open>DisplayAi\<close>\<close>

text \<open>
  The settings object of \<^verbatim>\<open>aiGetSettings\<close>, and the fields of the class. An element that
  \<^verbatim>\<open>querySelector\<close> did not find is \<open>None\<close>; the root and the button carry their
  \<^verbatim>\<open>hidden\<close> flag, the status element its text and \<^verbatim>\<open>hidden\<close> flag, the content element
  its children. \<^verbatim>\<open>_requestId\<close> is a JavaScript number that starts at zero and changes
  only by \<^verbatim>\<open>+= 1\<close>, so its values are natural numbers. \<open>logged\<close> records the calls of
  \<^verbatim>\<open>log.error\<close>.
\<close>

record ai_settings = details +
  mode :: jsstring

record display_ai =
  root :: "bool option"
  content :: "node list option"
  status_node :: "(jsstring \<times> bool) option"
  button :: "bool option"
  requestId :: nat
  settings :: "ai_settings option"
  pendingInput :: "(jsstring \<times> jsstring) option"
  logged :: "js_error list"

text \<open>
  \<^verbatim>\<open>this._display.history.state\<close>, as far as the class reads it: the modifier keys of the
  options context (\<open>None\<close> when absent or not an array) and the text of the sentence.
\<close>

record history_state =
  modifierKeys :: "jsstring list option"
  sentence_text :: "jsstring option"

definition isShiftLookup :: "history_state option \<Rightarrow> bool" where
  "isShiftLookup state =
     (case state of
        None \<Rightarrow> False
      | Some h \<Rightarrow> (case modifierKeys h of None \<Rightarrow> False | Some ks \<Rightarrow> js ''shift'' \<in> set ks))"

definition getSentenceText :: "history_state option \<Rightarrow> jsstring" where
  "getSentenceText state =
     (case state of
        None \<Rightarrow> []
      | Some h \<Rightarrow> (case sentence_text h of None \<Rightarrow> [] | Some t \<Rightarrow> t))"

text \<open>
  \<^verbatim>\<open>this._requestId += 1\<close>. A JavaScript number is a double: below \<open>2^53\<close> the sum is
  exact; at \<open>2^53\<close> the sum \<open>2^53 + 1\<close> is not a double and rounds back to \<open>2^53\<close> (ties
  to even), so the counter stays there. No greater value is reached from zero.
\<close>

definition next_token :: "nat \<Rightarrow> nat" where
  "next_token n = (if n < 9007199254740992 then n + 1 else n)"

definition setVisible :: "bool \<Rightarrow> display_ai \<Rightarrow> display_ai" where
  "setVisible visible s = (case root s of None \<Rightarrow> s | Some h \<Rightarrow> s\<lparr>root := Some (\<not> visible)\<rparr>)"

definition setButtonVisible :: "bool \<Rightarrow> display_ai \<Rightarrow> display_ai" where
  "setButtonVisible visible s = (case button s of None \<Rightarrow> s | Some h \<Rightarrow> s\<lparr>button := Some (\<not> visible)\<rparr>)"

definition setStatusText :: "jsstring \<Rightarrow> display_ai \<Rightarrow> display_ai" where
  "setStatusText v s =
     (case status_node s of None \<Rightarrow> s | Some old \<Rightarrow> s\<lparr>status_node := Some (v, length v = 0)\<rparr>)"

definition setContentText :: "jsstring \<Rightarrow> display_ai \<Rightarrow> display_ai" where
  "setContentText v s =
     (case content s of None \<Rightarrow> s | Some old \<Rightarrow> s\<lparr>content := Some (text_children v)\<rparr>)"

definition setContentRendered :: "json \<Rightarrow> display_ai \<Rightarrow> display_ai" where
  "setContentRendered v s =
     (case content s of
        None \<Rightarrow> s
      | Some old \<Rightarrow>
          (let s1 = s\<lparr>content := Some []\<rparr> in
           if \<not> is_object v then s1\<lparr>content := Some (text_children (js_String v))\<rparr>
           else s1\<lparr>content := Some ([] @ render_children v)\<rparr>))"

definition onContentClear :: "display_ai \<Rightarrow> display_ai" where
  "onContentClear s =
     setContentText [] (setStatusText [] (setButtonVisible False (setVisible False
       (s\<lparr>requestId := next_token (requestId s), pendingInput := None\<rparr>))))"

text \<open>
  An \<^verbatim>\<open>async\<close> method runs until its next \<^verbatim>\<open>await\<close>; what it waits for, with the
  variables the continuation has captured, is an \<open>awaiting\<close>. The first component is the
  captured \<^verbatim>\<open>requestId\<close>.
\<close>

datatype awaiting =
    AwaitSettingsForLookup nat "jsstring option"
  | AwaitSettingsForExplain nat jsstring jsstring
  | AwaitCompletion nat request

fun token :: "awaiting \<Rightarrow> nat" where
  "token (AwaitSettingsForLookup rid q) = rid"
| "token (AwaitSettingsForExplain rid w c) = rid"
| "token (AwaitCompletion rid r) = rid"

text \<open>The \<^verbatim>\<open>catch\<close> clause of \<^verbatim>\<open>_requestExplain\<close>; all three kinds of error are \<^verbatim>\<open>Error\<close>s.\<close>

fun message :: "js_error \<Rightarrow> jsstring" where
  "message (DOMException name msg) = msg"
| "message (TypeError msg) = msg"
| "message (Error msg) = msg"

definition explain_catch :: "nat \<Rightarrow> js_error \<Rightarrow> display_ai \<Rightarrow> display_ai" where
  "explain_catch rid e s =
     (if rid \<noteq> requestId s then s
      else (let s1 = setContentText (message e) (setStatusText (js ''AI request failed.'') s)
            in s1\<lparr>logged := logged s1 @ [e]\<rparr>))"

text \<open>\<^verbatim>\<open>_requestExplain\<close> from the point where the settings are known (line 145).\<close>

definition explain_with_settings ::
  "nat \<Rightarrow> jsstring \<Rightarrow> jsstring \<Rightarrow> ai_settings \<Rightarrow> display_ai \<Rightarrow> display_ai \<times> awaiting option"
where
  "explain_with_settings rid word ctx st s =
     (if rid \<noteq> requestId s then (s, None)
      else
        (let url_v = trim (apiUrl st) in
         if length url_v = 0 then (explain_catch rid (Error (js ''AI API URL not configured'')) s, None)
         else
           (s, Some (AwaitCompletion rid
                (build_request \<lparr>apiUrl = url_v, apiKey = apiKey st, model = model st,
                                prompt = buildPrompt (prompt st) word ctx\<rparr>)))))"

text \<open>
  \<^verbatim>\<open>_requestExplain\<close> up to its first \<^verbatim>\<open>await\<close>. With cached settings the operand of
  \<^verbatim>\<open>??\<close> is not evaluated and the method runs on to the \<^verbatim>\<open>fetch\<close>. The status text ends
  in the ellipsis U+2026.
\<close>

definition requestExplain :: "jsstring \<Rightarrow> jsstring \<Rightarrow> display_ai \<Rightarrow> display_ai \<times> awaiting option" where
  "requestExplain word ctx s =
     (let s1 = s\<lparr>requestId := next_token (requestId s)\<rparr>;
          rid = requestId s1;
          s2 = setContentText [] (setStatusText (js ''AI is thinking'' @ [0x2026]) (setVisible True s1))
      in case settings s2 of
           Some st \<Rightarrow> explain_with_settings rid word ctx st s2
         | None \<Rightarrow> (s2, Some (AwaitSettingsForExplain rid word ctx)))"

text \<open>The callback \<^verbatim>\<open>onText\<close> and the code after the \<^verbatim>\<open>await\<close> of the completion.\<close>

definition explain_onText :: "nat \<Rightarrow> jsstring \<Rightarrow> display_ai \<Rightarrow> display_ai" where
  "explain_onText rid partial s =
     (if rid \<noteq> requestId s then s
      else
        (let s1 = setContentText partial s;
             parsed = tryParseJson partial
         in if parsed \<noteq> JNull then setContentRendered parsed (setStatusText [] s1) else s1))"

definition explain_resolved :: "nat \<Rightarrow> jsstring \<Rightarrow> display_ai \<Rightarrow> display_ai" where
  "explain_resolved rid resultText s =
     (if rid \<noteq> requestId s then s
      else
        (let parsed = tryParseJson resultText;
             s1 = setStatusText [] s
         in if parsed \<noteq> JNull then setContentRendered parsed s1 else setContentText resultText s1))"

text \<open>\<^verbatim>\<open>_onContentUpdateStart\<close>: up to the \<^verbatim>\<open>await\<close>, and its two continuations.\<close>

definition onContentUpdateStart ::
  "jsstring option \<Rightarrow> history_state option \<Rightarrow> display_ai \<Rightarrow> display_ai \<times> awaiting option"
where
  "onContentUpdateStart query state s =
     (let s1 = s\<lparr>requestId := next_token (requestId s), pendingInput := None\<rparr> in
      if \<not> isShiftLookup state then (setVisible False s1, None)
      else (s1, Some (AwaitSettingsForLookup (requestId s1) query)))"

definition lookup_resolved ::
  "nat \<Rightarrow> jsstring option \<Rightarrow> ai_settings \<Rightarrow> history_state option \<Rightarrow> display_ai \<Rightarrow> display_ai \<times> awaiting option"
where
  "lookup_resolved rid query st state s =
     (if rid \<noteq> requestId s then (s, None)
      else
        (let s1 = s\<lparr>settings := Some st\<rparr>;
             word = (case query of Some q \<Rightarrow> q | None \<Rightarrow> []);
             ctx = getSentenceText state;
             s2 = setVisible True (s1\<lparr>pendingInput := Some (word, ctx)\<rparr>)
         in if map_option mode (settings s2) = Some (js ''manual'') then
              (setContentText [] (setStatusText (js ''Click AI to explain.'') (setButtonVisible True s2)), None)
            else requestExplain word ctx (setButtonVisible False s2)))"

definition lookup_rejected :: "nat \<Rightarrow> js_error \<Rightarrow> display_ai \<Rightarrow> display_ai" where
  "lookup_rejected rid e s =
     (let s1 = setContentText [] (setStatusText (js ''AI settings unavailable.'')
                 (setButtonVisible False (setVisible True (s\<lparr>settings := None\<rparr>))))
      in s1\<lparr>logged := logged s1 @ [e]\<rparr>)"

definition onButtonClick :: "history_state option \<Rightarrow> display_ai \<Rightarrow> display_ai \<times> awaiting option" where
  "onButtonClick state s =
     (if \<not> isShiftLookup state then (s, None)
      else (case pendingInput s of
              None \<Rightarrow> (s, None)
            | Some (word, ctx) \<Rightarrow> requestExplain word ctx s))"

text \<open>
  The event loop: the instance and the continuations that wait. An event is a call of
  a listener or the settling of what the \<open>i\<close>-th waiting continuation waits for;
  \<open>PartialText\<close> is a call of \<^verbatim>\<open>onText\<close> from a completion that is still running. Each
  event comes with the history state of the display at that moment.
\<close>

record system =
  instance_state :: display_ai
  waiting :: "awaiting list"

datatype event =
    ContentClear
  | ContentUpdateStart "jsstring option"
  | ButtonClick
  | SettingsResolved nat ai_settings
  | SettingsRejected nat js_error
  | PartialText nat jsstring
  | CompletionResolved nat jsstring
  | CompletionRejected nat js_error

definition remove_nth :: "nat \<Rightarrow> 'a list \<Rightarrow> 'a list" where
  "remove_nth i xs = take i xs @ drop (Suc i) xs"

definition spawn :: "awaiting list \<Rightarrow> display_ai \<times> awaiting option \<Rightarrow> system" where
  "spawn ws r = \<lparr>instance_state = fst r, waiting = ws @ (case snd r of None \<Rightarrow> [] | Some w \<Rightarrow> [w])\<rparr>"

definition nth_waiting :: "system \<Rightarrow> nat \<Rightarrow> awaiting option" where
  "nth_waiting sys i = (if i < length (waiting sys) then Some (waiting sys ! i) else None)"

fun dispatch :: "system \<Rightarrow> history_state option \<times> event \<Rightarrow> system" where
  "dispatch sys (state, ContentClear) = sys\<lparr>instance_state := onContentClear (instance_state sys)\<rparr>"
| "dispatch sys (state, ContentUpdateStart query) =
     spawn (waiting sys) (onContentUpdateStart query state (instance_state sys))"
| "dispatch sys (state, ButtonClick) = spawn (waiting sys) (onButtonClick state (instance_state sys))"
| "dispatch sys (state, SettingsResolved i st) =
     (case nth_waiting sys i of
        Some (AwaitSettingsForLookup rid query) \<Rightarrow>
          spawn (remove_nth i (waiting sys)) (lookup_resolved rid query st state (instance_state sys))
      | Some (AwaitSettingsForExplain rid word ctx) \<Rightarrow>
          spawn (remove_nth i (waiting sys)) (explain_with_settings rid word ctx st (instance_state sys))
      | _ \<Rightarrow> sys)"
| "dispatch sys (state, SettingsRejected i e) =
     (case nth_waiting sys i of
        Some (AwaitSettingsForLookup rid query) \<Rightarrow>
          \<lparr>instance_state = lookup_rejected rid e (instance_state sys), waiting = remove_nth i (waiting sys)\<rparr>
      | Some (AwaitSettingsForExplain rid word ctx) \<Rightarrow>
          \<lparr>instance_state = explain_catch rid e (instance_state sys), waiting = remove_nth i (waiting sys)\<rparr>
      | _ \<Rightarrow> sys)"
| "dispatch sys (state, PartialText i partial) =
     (case nth_waiting sys i of
        Some (AwaitCompletion rid req) \<Rightarrow>
          sys\<lparr>instance_state := explain_onText rid partial (instance_state sys)\<rparr>
      | _ \<Rightarrow> sys)"
| "dispatch sys (state, CompletionResolved i resultText) =
     (case nth_waiting sys i of
        Some (AwaitCompletion rid req) \<Rightarrow>
          \<lparr>instance_state = explain_resolved rid resultText (instance_state sys), waiting = remove_nth i (waiting sys)\<rparr>
      | _ \<Rightarrow> sys)"
| "dispatch sys (state, CompletionRejected i e) =
     (case nth_waiting sys i of
        Some (AwaitCompletion rid req) \<Rightarrow>
          \<lparr>instance_state = explain_catch rid e (instance_state sys), waiting = remove_nth i (waiting sys)\<rparr>
      | _ \<Rightarrow> sys)"

text \<open>
  The instance after the constructor and \<^verbatim>\<open>prepare\<close>, given the four elements, and the
  system it starts in.
\<close>

definition prepared ::
  "bool option \<Rightarrow> node list option \<Rightarrow> (jsstring \<times> bool) option \<Rightarrow> bool option \<Rightarrow> display_ai"
where
  "prepared r c st b =
     \<lparr>root = r, content = c, status_node = st, button = b,
      requestId = 0, settings = None, pendingInput = None, logged = []\<rparr>"

definition run :: "display_ai \<Rightarrow> (history_state option \<times> event) list \<Rightarrow> system" where
  "run s0 evs = foldl dispatch \<lparr>instance_state = s0, waiting = []\<rparr> evs"

section \<open>What the specification says, in its own words\<close>

text \<open>
  The specification's non-streaming fallback takes the final text from
  \<^verbatim>\<open>choices[0].message.content\<close> of the full JSON body.
\<close>

definition spec_message_content :: "jsstring \<Rightarrow> jsstring option" where
  "spec_message_content body_v =
     (case JSON_parse body_v of
        None \<Rightarrow> None
      | Some data \<Rightarrow>
          (case get_prop data (js ''choices'') of
             Some (JArr (choice0 # others)) \<Rightarrow>
               (case get_prop choice0 (js ''message'') of
                  Some m \<Rightarrow> (case get_prop m (js ''content'') of Some (JStr c) \<Rightarrow> Some c | _ \<Rightarrow> None)
                | None \<Rightarrow> None)
           | _ \<Rightarrow> None))"

text \<open>
  The rendering as the specification words it. A field is present when it is a
  non-empty string. The tree is the header (the title, else the word, else the generic
  label; the badge when the word is present), a section for each of the meaning, the
  meaning in context and the usage whose field is a string that is not all whitespace,
  and, when the list of examples is not empty, the section of the examples, with an entry
  for each example object that has a text or an explanation.
\<close>

definition present :: "json option \<Rightarrow> jsstring option" where
  "present f = (case f of Some (JStr v) \<Rightarrow> if v = [] then None else Some v | _ \<Rightarrow> None)"

definition spec_header :: "json \<Rightarrow> node" where
  "spec_header data =
     Element (js ''ai-explanation-render-header'')
       (div_text (js ''ai-explanation-render-title'')
          (case present (get_prop data (js ''title'')) of
             Some t \<Rightarrow> t
           | None \<Rightarrow> (case present (get_prop data (js ''word'')) of Some w \<Rightarrow> w | None \<Rightarrow> js ''AI'')) #
        (case present (get_prop data (js ''word'')) of
           Some w \<Rightarrow> [div_text (js ''ai-explanation-render-badge'') w]
         | None \<Rightarrow> []))"

definition spec_section :: "jsstring \<Rightarrow> json option \<Rightarrow> node list" where
  "spec_section label f =
     (case f of
        Some (JStr v) \<Rightarrow>
          if list_all isWhiteSpace v then []
          else [Element (js ''ai-explanation-section'')
                  [div_text (js ''ai-explanation-section-title'') label,
                   div_text (js ''ai-explanation-section-body'') v]]
      | _ \<Rightarrow> [])"

definition spec_example :: "json \<Rightarrow> node list" where
  "spec_example example =
     (if \<not> is_object example then []
      else
        (case (present (get_prop example (js ''text'')), present (get_prop example (js ''explain''))) of
           (None, None) \<Rightarrow> []
         | (t, x) \<Rightarrow>
             [Element (js ''ai-explanation-example'')
                ((case t of Some v \<Rightarrow> [div_text (js ''ai-explanation-example-text'') v] | None \<Rightarrow> []) @
                 (case x of Some v \<Rightarrow> [div_text (js ''ai-explanation-example-explain'') v] | None \<Rightarrow> []))]))"

definition spec_examples :: "json option \<Rightarrow> node list" where
  "spec_examples f =
     (case f of
        Some (JArr es) \<Rightarrow>
          if es = [] then []
          else [Element (js ''ai-explanation-section'')
                  [div_text (js ''ai-explanation-section-title'') (js ''Examples''),
                   Element (js ''ai-explanation-examples'') (concat (map spec_example es))]]
      | _ \<Rightarrow> [])"

definition spec_render :: "json \<Rightarrow> node list" where
  "spec_render data =
     [spec_header data] @
     spec_section (js ''Meaning'') (get_prop data (js ''meaning'')) @
     spec_section (js ''In context'') (get_prop data (js ''meaning_in_context'')) @
     spec_section (js ''Usage'') (get_prop data (js ''usage'')) @
     spec_examples (get_prop data (js ''examples''))"


section \<open>Notions used in the statements\<close>




text \<open>
  What a caller can observe of a run of the read loop: the value returned or thrown, the
  calls of \<^verbatim>\<open>onText\<close> and the lines taken from the buffer. The buffer itself is a local
  variable that is dead once the function has returned.
\<close>

definition observed ::
  "(js_error + jsstring) \<times> reader_state \<Rightarrow> (js_error + jsstring) \<times> jsstring list \<times> jsstring list"
where
  "observed r = (fst r, onText_calls (snd r), lines_read (snd r))"


text \<open>
  Kinds of raw lines (the text before a newline in the buffer): a data line starts, once
  trimmed at its end, with \<^verbatim>\<open>data:\<close>; its payload is what follows, trimmed. The
  sentinel line has the payload \<^verbatim>\<open>[DONE]\<close>; a malformed line has a payload that
  \<^verbatim>\<open>JSON.parse\<close> rejects; a delta line has a payload that parses and carries the
  non-empty delta \<open>d\<close>.
\<close>

definition payload :: "jsstring \<Rightarrow> jsstring" where
  "payload raw = trim (drop 5 (trimEnd raw))"

definition data_line :: "jsstring \<Rightarrow> bool" where
  "data_line raw \<longleftrightarrow> 0x0A \<notin> set raw \<and> startsWith (trimEnd raw) (js ''data:'')"

definition done_line :: "jsstring \<Rightarrow> bool" where
  "done_line raw \<longleftrightarrow> data_line raw \<and> payload raw = js ''[DONE]''"

definition malformed_line :: "jsstring \<Rightarrow> bool" where
  "malformed_line raw \<longleftrightarrow>
     data_line raw \<and> payload raw \<noteq> js ''[DONE]'' \<and> JSON_parse (payload raw) = None"

definition delta_line :: "jsstring \<Rightarrow> jsstring \<Rightarrow> bool" where
  "delta_line raw d \<longleftrightarrow>
     data_line raw \<and> payload raw \<noteq> js ''[DONE]'' \<and> d \<noteq> [] \<and>
     map_option getStreamDeltaContent (JSON_parse (payload raw)) = Some d"


text \<open>
  The lines of a stream as the specification treats them. The delta of a raw line is the
  delta content of its payload when the line is a data line whose payload parses, and
  empty otherwise: a line that is no data line is ignored and a payload that does not
  parse is skipped. The accumulated text of a list of lines is the concatenation of their
  deltas, and the partial callback is called with the new total after every line with a
  non-empty delta. \<open>unlines\<close> is the text of the lines, each followed by a newline; lines
  are plain when none contains a newline and none is a sentinel line.
\<close>

definition spec_line_delta :: "jsstring \<Rightarrow> jsstring" where
  "spec_line_delta raw =
     (if data_line raw then
        (case JSON_parse (payload raw) of None \<Rightarrow> [] | Some v \<Rightarrow> getStreamDeltaContent v)
      else [])"

fun spec_partials :: "jsstring \<Rightarrow> jsstring list \<Rightarrow> jsstring list" where
  "spec_partials acc [] = []"
| "spec_partials acc (raw # raws) =
     (if spec_line_delta raw = [] then spec_partials acc raws
      else (acc @ spec_line_delta raw) # spec_partials (acc @ spec_line_delta raw) raws)"

definition spec_text :: "jsstring list \<Rightarrow> jsstring" where
  "spec_text raws = concat (map spec_line_delta raws)"

definition unlines :: "jsstring list \<Rightarrow> jsstring" where
  "unlines raws = concat (map (\<lambda>raw. raw @ [0x0A]) raws)"

definition plain_lines :: "jsstring list \<Rightarrow> bool" where
  "plain_lines raws = list_all (\<lambda>raw. 0x0A \<notin> set raw \<and> \<not> done_line raw) raws"


text \<open>
  The invariant of the event loop: no captured token of a waiting continuation exceeds
  the current token, and as long as the counter is below \<open>2^53\<close> the captured tokens are
  pairwise distinct.
\<close>

definition tokens_ok :: "system \<Rightarrow> bool" where
  "tokens_ok sys \<longleftrightarrow>
     list_all (\<lambda>w. token w \<le> requestId (instance_state sys)) (waiting sys) \<and>
     (requestId (instance_state sys) < 9007199254740992 \<longrightarrow> distinct (map token (waiting sys)))"


text \<open>
  Inputs of the examples: a lookup made with the shift key, settings in manual mode and
  in automatic mode, and an instance that has found all four elements.
\<close>

definition shift_lookup :: "history_state option" where
  "shift_lookup = Some \<lparr>modifierKeys = Some [js ''shift''], sentence_text = Some (js ''a sentence'')\<rparr>"

definition manual_settings :: ai_settings where
  "manual_settings =
     \<lparr>apiUrl = js ''http://127.0.0.1:8317/v1/chat/completions'', apiKey = [], model = [],
      prompt = [], mode = js ''manual''\<rparr>"

definition auto_settings :: ai_settings where
  "auto_settings =
     \<lparr>apiUrl = js ''http://127.0.0.1:8317/v1/chat/completions'', apiKey = [], model = [],
      prompt = [], mode = js ''auto''\<rparr>"

definition all_elements :: display_ai where
  "all_elements = prepared (Some True) (Some []) (Some ([], True)) (Some True)"


section \<open>An invariant of the JSON recogniser\<close>

text \<open>
  A state is rooted in an object when the outermost open container is an object, or the
  parse has finished with an object, or it has failed. Every state reached after an
  opening brace at the start is of this kind.
\<close>

fun is_obj_frame :: "frame \<Rightarrow> bool" where
  "is_obj_frame (FArr es) = False"
| "is_obj_frame (FObj kvs) = True"
| "is_obj_frame (FKey kvs k) = True"

fun is_done :: "lex \<Rightarrow> bool" where
  "is_done (LDone v) = True"
| "is_done _ = False"

definition obj_rooted :: "pstate \<Rightarrow> bool" where
  "obj_rooted ps \<longleftrightarrow>
     (\<not> is_done (fst ps) \<and> snd ps \<noteq> [] \<and> is_obj_frame (last (snd ps))) \<or>
     (\<exists>kvs. fst ps = LDone (JObj kvs)) \<or> fst ps = LErr"


section \<open>Evaluation rules\<close>

lemmas json_eval = JSON_parse_def step_def start_value_def isJsonWs_def close_object_def
  close_array_def end_string_def isDigit_def escape_def hexval_def

lemmas string_eval = js_def ascii_bytes_def trim_def trimStart_def trimEnd_def isWhiteSpace_def
  startsWith_def endsWith_def

lemmas stream_eval = utf8_byte_def utf8_lead_def utf8_reset_def utf16_def
  new_decoder_def new_reader_def inner_loop.simps handle_line_def getStreamDeltaContent_def
  content_of_def Let_def

lemmas display_eval = run_def spawn_def nth_waiting_def remove_nth_def
  onContentUpdateStart_def lookup_resolved_def lookup_rejected_def onButtonClick_def
  requestExplain_def explain_with_settings_def explain_catch_def explain_onText_def
  explain_resolved_def onContentClear_def setVisible_def setButtonVisible_def setStatusText_def
  setContentText_def isShiftLookup_def getSentenceText_def prepared_def all_elements_def
  shift_lookup_def manual_settings_def auto_settings_def text_children_def next_token_def Let_def


section \<open>Lemmas on the read loop\<close>

lemma indexOf_None: "indexOf xs c = None \<longleftrightarrow> c \<notin> set xs"
  by (induction xs) auto

lemma indexOf_first: "c \<notin> set raw \<Longrightarrow> indexOf (raw @ c # rest) c = Some (length raw)"
  by (induction raw) auto

lemma indexOf_split:
  "indexOf xs c = Some i \<Longrightarrow> xs = take i xs @ c # drop (Suc i) xs \<and> c \<notin> set (take i xs)"
proof (induction xs arbitrary: i)
  case Nil
  then show ?case by simp
next
  case (Cons x xs)
  show ?case
  proof (cases "x = c")
    case True
    with Cons.prems show ?thesis by simp
  next
    case False
    with Cons.prems obtain j where j: "indexOf xs c = Some j" and i: "i = Suc j" by auto
    from Cons.IH [OF j] False i show ?thesis by auto
  qed
qed

lemma indexOf_append: "indexOf xs c = Some i \<Longrightarrow> indexOf (xs @ ys) c = Some i"
  by (induction xs arbitrary: i) (auto split: if_splits)

lemma inner_loop_no_newline: "0x0A \<notin> set (buffer s) \<Longrightarrow> inner_loop s = Pending s"
  by (subst inner_loop.simps) (simp add: indexOf_None [THEN iffD2])

lemma inner_loop_line:
  assumes "0x0A \<notin> set raw"
  shows "inner_loop (s\<lparr>buffer := raw @ 0x0A # rest\<rparr>) =
           (case handle_line (trimEnd raw)
                   (s\<lparr>buffer := rest, lines_read := lines_read s @ [trimEnd raw]\<rparr>) of
              Returned s' \<Rightarrow> Returned s'
            | Pending s' \<Rightarrow> inner_loop s')"
  by (subst inner_loop.simps) (simp add: indexOf_first [OF assms])

lemma handle_line_set_buffer:
  "handle_line line (s\<lparr>buffer := b\<rparr>) =
     (case handle_line line s of
        Returned s' \<Rightarrow> Returned (s'\<lparr>buffer := b\<rparr>)
      | Pending s' \<Rightarrow> Pending (s'\<lparr>buffer := b\<rparr>))"
  by (simp add: handle_line_def Let_def split: option.splits)

lemma handle_line_Returned_buffer:
  "handle_line line s = Returned s' \<Longrightarrow> buffer s' = buffer s"
  by (auto simp: handle_line_def Let_def split: if_splits option.splits)

lemma inner_loop_Pending_no_newline:
  "inner_loop s = Pending s' \<Longrightarrow> 0x0A \<notin> set (buffer s')"
proof (induction s rule: inner_loop.induct)
  case (1 s)
  show ?case
  proof (cases "indexOf (buffer s) 0x0A")
    case None
    with "1.prems" show ?thesis
      by (subst (asm) inner_loop.simps) (simp add: indexOf_None)
  next
    case (Some i)
    let ?l = "trimEnd (take i (buffer s))"
    let ?s1 = "s\<lparr>buffer := drop (i + 1) (buffer s), lines_read := lines_read s @ [?l]\<rparr>"
    from "1.prems" Some obtain s2 where h: "handle_line ?l ?s1 = Pending s2"
      and r: "inner_loop s2 = Pending s'"
      by (subst (asm) inner_loop.simps) (auto split: outcome.splits)
    from "1.IH" [OF Some h r] show ?thesis .
  qed
qed

text \<open>Appending text to the buffer before or after the lines already there are handled.\<close>

lemma inner_loop_append:
  "inner_loop (s\<lparr>buffer := buffer s @ t\<rparr>) =
     (case inner_loop s of
        Returned s' \<Rightarrow> Returned (s'\<lparr>buffer := buffer s' @ t\<rparr>)
      | Pending s' \<Rightarrow> inner_loop (s'\<lparr>buffer := buffer s' @ t\<rparr>))"
proof (induction s rule: inner_loop.induct)
  case (1 s)
  show ?case
  proof (cases "indexOf (buffer s) 0x0A")
    case None
    then show ?thesis by (subst (2) inner_loop.simps) simp
  next
    case (Some i)
    let ?l = "trimEnd (take i (buffer s))"
    let ?s1 = "s\<lparr>buffer := drop (i + 1) (buffer s), lines_read := lines_read s @ [?l]\<rparr>"
    have i: "i < length (buffer s)" using Some by (rule indexOf_less)
    have idx: "indexOf (buffer s @ t) 0x0A = Some i" using Some by (rule indexOf_append)
    let ?s1t = "s\<lparr>buffer := drop (i + 1) (buffer s) @ t, lines_read := lines_read s @ [?l]\<rparr>"
    have eq: "?s1t = ?s1\<lparr>buffer := buffer ?s1 @ t\<rparr>" by simp
    have "inner_loop (s\<lparr>buffer := buffer s @ t\<rparr>) =
        (case handle_line ?l ?s1t of
           Returned s' \<Rightarrow> Returned s' | Pending s' \<Rightarrow> inner_loop s')"
      using i idx by (subst inner_loop.simps) simp
    then have lhs: "inner_loop (s\<lparr>buffer := buffer s @ t\<rparr>) =
        (case handle_line ?l (?s1\<lparr>buffer := buffer ?s1 @ t\<rparr>) of
           Returned s' \<Rightarrow> Returned s' | Pending s' \<Rightarrow> inner_loop s')"
      unfolding eq .
    have rhs: "inner_loop s =
        (case handle_line ?l ?s1 of Returned s' \<Rightarrow> Returned s' | Pending s' \<Rightarrow> inner_loop s')"
      using Some by (subst inner_loop.simps) simp
    have mid: "inner_loop (s\<lparr>buffer := buffer s @ t\<rparr>) =
        (case (case handle_line ?l ?s1 of
                 Returned s' \<Rightarrow> Returned (s'\<lparr>buffer := buffer ?s1 @ t\<rparr>)
               | Pending s' \<Rightarrow> Pending (s'\<lparr>buffer := buffer ?s1 @ t\<rparr>)) of
           Returned s' \<Rightarrow> Returned s' | Pending s' \<Rightarrow> inner_loop s')"
      using lhs by (simp only: handle_line_set_buffer)
    show ?thesis
    proof (cases "handle_line ?l ?s1")
      case (Returned s2)
      have b: "buffer s2 = buffer ?s1" using Returned by (rule handle_line_Returned_buffer)
      have l: "inner_loop (s\<lparr>buffer := buffer s @ t\<rparr>) = Returned (s2\<lparr>buffer := buffer s2 @ t\<rparr>)"
        using mid by (simp only: Returned outcome.case b)
      have r: "inner_loop s = Returned s2"
        using rhs by (simp only: Returned outcome.case)
      show ?thesis by (simp only: l r outcome.case)
    next
      case (Pending s2)
      have b: "buffer s2 = buffer ?s1" using Pending by (rule handle_line_buffer)
      have l: "inner_loop (s\<lparr>buffer := buffer s @ t\<rparr>) = inner_loop (s2\<lparr>buffer := buffer s2 @ t\<rparr>)"
        using mid by (simp only: Pending outcome.case b)
      have r: "inner_loop s = inner_loop s2"
        using rhs by (simp only: Pending outcome.case)
      from "1.IH" [OF Some Pending]
      have "inner_loop (s2\<lparr>buffer := buffer s2 @ t\<rparr>) =
        (case inner_loop s2 of
           Returned s' \<Rightarrow> Returned (s'\<lparr>buffer := buffer s' @ t\<rparr>)
         | Pending s' \<Rightarrow> inner_loop (s'\<lparr>buffer := buffer s' @ t\<rparr>))" .
      then show ?thesis by (simp only: l r)
    qed
  qed
qed

lemma decode_append:
  "decode d (xs @ ys) =
     (let (d1, o1) = decode d xs; (d2, o2) = decode d1 ys in (d2, o1 @ o2))"
  by (induction xs arbitrary: d) (auto simp: Let_def split: prod.splits)

lemma read_loop_chunks:
  assumes "0x0A \<notin> set (buffer s)"
  shows "observed (read_loop d s chunks t) = observed (read_loop d s [concat chunks] t)"
  using assms
proof (induction chunks arbitrary: d s)
  case Nil
  then show ?case by (simp add: inner_loop_no_newline)
next
  case (Cons c cs)
  obtain d1 o1 where dc: "decode d c = (d1, o1)" by (cases "decode d c")
  obtain d2 o2 where dcs: "decode d1 (concat cs) = (d2, o2)" by (cases "decode d1 (concat cs)")
  have dall: "decode d (c @ concat cs) = (d2, o1 @ o2)"
    by (simp add: decode_append dc dcs)
  let ?s1 = "s\<lparr>buffer := buffer s @ o1\<rparr>"
  have app: "inner_loop (s\<lparr>buffer := buffer s @ (o1 @ o2)\<rparr>) =
      (case inner_loop ?s1 of
         Returned s' \<Rightarrow> Returned (s'\<lparr>buffer := buffer s' @ o2\<rparr>)
       | Pending s' \<Rightarrow> inner_loop (s'\<lparr>buffer := buffer s' @ o2\<rparr>))"
    using inner_loop_append [of ?s1 o2] by simp
  show ?case
  proof (cases "inner_loop ?s1")
    case (Returned s')
    then show ?thesis using dc dall app by (simp add: observed_def)
  next
    case (Pending s')
    have nb: "0x0A \<notin> set (buffer s')" using Pending by (rule inner_loop_Pending_no_newline)
    have "read_loop d s (c # cs) t = read_loop d1 s' cs t"
      using dc Pending by simp
    moreover have "observed (read_loop d1 s' cs t) = observed (read_loop d1 s' [concat cs] t)"
      by (rule Cons.IH [OF nb])
    moreover have "read_loop d1 s' [concat cs] t = read_loop d s [concat (c # cs)] t"
      using dcs dall app Pending by simp
    ultimately show ?thesis by simp
  qed
qed

lemma inner_loop_retains:
  "inner_loop s = Pending s' \<Longrightarrow>
     \<exists>consumed. buffer s = consumed @ buffer s' \<and> (consumed = [] \<or> last consumed = 0x0A)"
proof (induction s rule: inner_loop.induct)
  case (1 s)
  show ?case
  proof (cases "indexOf (buffer s) 0x0A")
    case None
    with "1.prems" have "s' = s"
      by (subst (asm) inner_loop.simps) simp
    then show ?thesis by simp
  next
    case (Some i)
    let ?l = "trimEnd (take i (buffer s))"
    let ?s1 = "s\<lparr>buffer := drop (i + 1) (buffer s), lines_read := lines_read s @ [?l]\<rparr>"
    from "1.prems" Some obtain s2 where h: "handle_line ?l ?s1 = Pending s2"
      and r: "inner_loop s2 = Pending s'"
      by (subst (asm) inner_loop.simps) (auto split: outcome.splits)
    from "1.IH" [OF Some h r] obtain consumed where
      c: "buffer s2 = consumed @ buffer s'" "consumed = [] \<or> last consumed = 0x0A" by blast
    have b: "buffer s2 = drop (Suc i) (buffer s)" using handle_line_buffer [OF h] by simp
    from indexOf_split [OF Some] have sp: "buffer s = take i (buffer s) @ 0x0A # drop (Suc i) (buffer s)"
      by blast
    have "buffer s = (take i (buffer s) @ 0x0A # consumed) @ buffer s'"
      using sp b c(1) by (metis append.assoc append_Cons)
    moreover have "last (take i (buffer s) @ 0x0A # consumed) = 0x0A"
      using c(2) by auto
    ultimately show ?thesis by blast
  qed
qed





lemma inner_loop_done:
  assumes "done_line raw"
  shows "inner_loop (s\<lparr>buffer := raw @ 0x0A # rest\<rparr>) =
           Returned (s\<lparr>buffer := rest, lines_read := lines_read s @ [trimEnd raw],
                       onText_calls := onText_calls s @ [result s]\<rparr>)"
proof -
  from assms have nl: "0x0A \<notin> set raw" and st: "startsWith (trimEnd raw) (js ''data:'')"
    and dn: "trim (drop 5 (trimEnd raw)) = js ''[DONE]''"
    by (simp_all add: done_line_def data_line_def payload_def)
  show ?thesis
    by (simp add: inner_loop_line [OF nl] handle_line_def st dn)
qed

lemma inner_loop_malformed:
  assumes "malformed_line raw"
  shows "inner_loop (s\<lparr>buffer := raw @ 0x0A # rest\<rparr>) =
           inner_loop (s\<lparr>buffer := rest, lines_read := lines_read s @ [trimEnd raw]\<rparr>)"
proof -
  from assms have nl: "0x0A \<notin> set raw" and st: "startsWith (trimEnd raw) (js ''data:'')"
    and dn: "trim (drop 5 (trimEnd raw)) \<noteq> js ''[DONE]''"
    and bad: "JSON_parse (trim (drop 5 (trimEnd raw))) = None"
    by (simp_all add: malformed_line_def data_line_def payload_def)
  show ?thesis
    by (simp add: inner_loop_line [OF nl] handle_line_def st dn bad)
qed

lemma inner_loop_delta:
  assumes "delta_line raw d"
  shows "inner_loop (s\<lparr>buffer := raw @ 0x0A # rest\<rparr>) =
           inner_loop (s\<lparr>buffer := rest, lines_read := lines_read s @ [trimEnd raw],
                         result := result s @ d, onText_calls := onText_calls s @ [result s @ d]\<rparr>)"
proof -
  from assms obtain data where nl: "0x0A \<notin> set raw" and st: "startsWith (trimEnd raw) (js ''data:'')"
    and dn: "trim (drop 5 (trimEnd raw)) \<noteq> js ''[DONE]''"
    and ok: "JSON_parse (trim (drop 5 (trimEnd raw))) = Some data"
    and d: "getStreamDeltaContent data = d" "d \<noteq> []"
    by (auto simp: delta_line_def data_line_def payload_def)
  show ?thesis
    by (simp add: inner_loop_line [OF nl] handle_line_def st dn ok d)
qed

lemma handle_line_Returned:
  "handle_line line s = Returned s' \<Longrightarrow> s' = s\<lparr>onText_calls := onText_calls s @ [result s]\<rparr>"
  by (auto simp: handle_line_def Let_def split: if_splits option.splits)

lemma inner_loop_Returned_last_call:
  "inner_loop s = Returned s' \<Longrightarrow> \<exists>calls. onText_calls s' = calls @ [result s']"
proof (induction s rule: inner_loop.induct)
  case (1 s)
  show ?case
  proof (cases "indexOf (buffer s) 0x0A")
    case None
    with "1.prems" show ?thesis by (subst (asm) inner_loop.simps) simp
  next
    case (Some i)
    let ?l = "trimEnd (take i (buffer s))"
    let ?s1 = "s\<lparr>buffer := drop (i + 1) (buffer s), lines_read := lines_read s @ [?l]\<rparr>"
    show ?thesis
    proof (cases "handle_line ?l ?s1")
      case (Returned s2)
      with "1.prems" Some have "s' = s2" by (subst (asm) inner_loop.simps) simp
      with handle_line_Returned [OF Returned] show ?thesis by simp
    next
      case (Pending s2)
      with "1.prems" Some have "inner_loop s2 = Returned s'"
        by (subst (asm) inner_loop.simps) simp
      from "1.IH" [OF Some Pending this] show ?thesis .
    qed
  qed
qed

lemma read_loop_returned_extends:
  "fst (read_loop d s chunks (ReadRejected e)) = Inr r \<Longrightarrow>
     read_loop d s (chunks @ later) t = read_loop d s chunks (ReadRejected e)"
proof (induction chunks arbitrary: d s)
  case Nil
  then show ?case by simp
next
  case (Cons c cs)
  obtain d1 o1 where dc: "decode d c = (d1, o1)" by (cases "decode d c")
  show ?case
  proof (cases "inner_loop (s\<lparr>buffer := buffer s @ o1\<rparr>)")
    case (Returned s')
    then show ?thesis using dc by simp
  next
    case (Pending s')
    with Cons.prems dc have "fst (read_loop d1 s' cs (ReadRejected e)) = Inr r" by simp
    from Cons.IH [OF this] show ?thesis using dc Pending by simp
  qed
qed

lemma read_loop_returned_last_call:
  "read_loop d s chunks (ReadRejected e) = (Inr r, s') \<Longrightarrow> \<exists>calls. onText_calls s' = calls @ [r]"
proof (induction chunks arbitrary: d s)
  case Nil
  then show ?case by simp
next
  case (Cons c cs)
  obtain d1 o1 where dc: "decode d c = (d1, o1)" by (cases "decode d c")
  show ?case
  proof (cases "inner_loop (s\<lparr>buffer := buffer s @ o1\<rparr>)")
    case (Returned s2)
    with Cons.prems dc have "s' = s2" "r = result s2" by auto
    with inner_loop_Returned_last_call [OF Returned] show ?thesis by simp
  next
    case (Pending s2)
    with Cons.prems dc have "read_loop d1 s2 cs (ReadRejected e) = (Inr r, s')" by simp
    from Cons.IH [OF this] show ?thesis .
  qed
qed

section \<open>The response without a body stream\<close>

text \<open>
  Claim C6, as amended. The claim says that for a successful response without a body
  stream the client returns \<^verbatim>\<open>choices[0].message.content\<close> of the JSON body. The code
  does no extraction on this path: when the status is 2xx and \<^verbatim>\<open>response.body\<close> is
  \<^verbatim>\<open>null\<close>, the client calls \<^verbatim>\<open>onText\<close> once with the whole text of the response and
  returns that text unchanged.
\<close>

theorem no_body_returns_whole_text:
  assumes "response_ok r" and "resp_body r = None" and "resp_text r = Inr data"
  shows "fetchCompletionStreaming a (FetchResolved r) =
           ([SetTimeout 20000, Fetch (build_request a), OnText data, ClearTimeout], Inr data)"
  using assms by (simp add: fetchCompletionStreaming_def try_block_def)

theorem no_body_returns_whole_text_witness:
  \<open>response_ok \<lparr>resp_status = 200, resp_text = Inr (js ''{"a":1}''), resp_body = None\<rparr> \<and>
   fetchCompletionStreaming \<lparr>apiUrl = js ''u'', apiKey = [], model = [], prompt = js ''p''\<rparr>
     (FetchResolved \<lparr>resp_status = 200, resp_text = Inr (js ''{"a":1}''), resp_body = None\<rparr>) =
   ([SetTimeout 20000,
     Fetch (build_request \<lparr>apiUrl = js ''u'', apiKey = [], model = [], prompt = js ''p''\<rparr>),
     OnText (js ''{"a":1}''), ClearTimeout], Inr (js ''{"a":1}''))\<close>
proof -
  have ok: "response_ok \<lparr>resp_status = 200, resp_text = Inr (js ''{\"a\":1}''), resp_body = None\<rparr>"
    by (simp add: response_ok_def)
  show ?thesis
    using ok no_body_returns_whole_text [OF ok, of "js ''{\"a\":1}''"
        "\<lparr>apiUrl = js ''u'', apiKey = [], model = [], prompt = js ''p''\<rparr>"]
    by simp
qed

text \<open>
  Claim C6 as stated fails: for a 200 response without a body stream whose text is
  \<^verbatim>\<open>{"choices":[{"message":{"content":"hi"}}]}\<close>, the content named by the claim is
  \<^verbatim>\<open>hi\<close>, and the client returns something else (the whole text).
\<close>

theorem no_body_message_content_counterexample:
  \<open>response_ok \<lparr>resp_status = 200,
                 resp_text = Inr (js ''{"choices":[{"message":{"content":"hi"}}]}''),
                 resp_body = None\<rparr> \<and>
   spec_message_content (js ''{"choices":[{"message":{"content":"hi"}}]}'') = Some (js ''hi'') \<and>
   snd (fetchCompletionStreaming \<lparr>apiUrl = js ''u'', apiKey = [], model = [], prompt = js ''p''\<rparr>
     (FetchResolved \<lparr>resp_status = 200,
                     resp_text = Inr (js ''{"choices":[{"message":{"content":"hi"}}]}''),
                     resp_body = None\<rparr>)) \<noteq> Inr (js ''hi'')\<close>
  by (simp add: response_ok_def spec_message_content_def fetchCompletionStreaming_def try_block_def
      json_eval js_def)

section \<open>The timeout\<close>



lemma try_block_stream:
  "response_ok r \<Longrightarrow> resp_body r = Some (cs, t) \<Longrightarrow>
     try_block (FetchResolved r) =
       (fst (read_loop new_decoder new_reader cs t),
        onText_calls (snd (read_loop new_decoder new_reader cs t)))"
  by (simp add: try_block_def split: prod.splits)

lemma try_block_not_ok:
  "\<not> response_ok r \<Longrightarrow>
     try_block (FetchResolved r) =
       (case resp_text r of
          Inl e \<Rightarrow> (Inl e, [])
        | Inr t \<Rightarrow>
            (Inl (Error (js ''AI request failed ('' @ decimal (resp_status r) @ js ''): '' @ take 500 t)), []))"
  by (simp add: try_block_def)

section \<open>Chunk boundaries\<close>

text \<open>
  Claim C2. However the bytes of a response body are cut into chunks, the read loop
  returns (or throws) the same value, makes the same calls of \<^verbatim>\<open>onText\<close> and takes the
  same lines from the buffer as on the whole byte sequence in one chunk, and so does the
  client. Nothing is dropped at a chunk boundary: the decoder carries the bytes of an
  unfinished UTF-8 sequence over to the next chunk, and when the inner loop stops the
  buffer holds exactly what follows the last newline.
\<close>

theorem stream_chunking_invariant:
  "observed (read_loop new_decoder new_reader chunks t) =
     observed (read_loop new_decoder new_reader [concat chunks] t) \<and>
   fetchCompletionStreaming a
     (FetchResolved \<lparr>resp_status = code, resp_text = tx, resp_body = Some (chunks, t)\<rparr>) =
   fetchCompletionStreaming a
     (FetchResolved \<lparr>resp_status = code, resp_text = tx, resp_body = Some ([concat chunks], t)\<rparr>) \<and>
   decode d (xs @ ys) = (let (d1, o1) = decode d xs; (d2, o2) = decode d1 ys in (d2, o1 @ o2)) \<and>
   (inner_loop s = Pending s' \<longrightarrow>
      0x0A \<notin> set (buffer s') \<and>
      (\<exists>consumed. buffer s = consumed @ buffer s' \<and> (consumed = [] \<or> last consumed = 0x0A)))"
proof -
  have nb: "0x0A \<notin> set (buffer new_reader)" by (simp add: new_reader_def)
  have p1: "observed (read_loop new_decoder new_reader chunks t) =
     observed (read_loop new_decoder new_reader [concat chunks] t)"
    using nb by (rule read_loop_chunks)
  then have p2: "fetchCompletionStreaming a
     (FetchResolved \<lparr>resp_status = code, resp_text = tx, resp_body = Some (chunks, t)\<rparr>) =
   fetchCompletionStreaming a
     (FetchResolved \<lparr>resp_status = code, resp_text = tx, resp_body = Some ([concat chunks], t)\<rparr>)"
  proof (cases "200 \<le> code \<and> code \<le> 299")
    case True
    then have ok: "response_ok \<lparr>resp_status = code, resp_text = tx, resp_body = Some (cs, t)\<rparr>" for cs
      by (simp add: response_ok_def)
    have "try_block (FetchResolved \<lparr>resp_status = code, resp_text = tx, resp_body = Some (chunks, t)\<rparr>) =
          try_block (FetchResolved \<lparr>resp_status = code, resp_text = tx, resp_body = Some ([concat chunks], t)\<rparr>)"
      using p1 by (simp only: try_block_stream [OF ok] response.simps observed_def prod.inject)
    then show ?thesis by (simp only: fetchCompletionStreaming_def)
  next
    case False
    then have nok: "\<not> response_ok \<lparr>resp_status = code, resp_text = tx, resp_body = Some (cs, t)\<rparr>" for cs
      by (simp add: response_ok_def)
    have "try_block (FetchResolved \<lparr>resp_status = code, resp_text = tx, resp_body = Some (chunks, t)\<rparr>) =
          try_block (FetchResolved \<lparr>resp_status = code, resp_text = tx, resp_body = Some ([concat chunks], t)\<rparr>)"
      by (simp only: try_block_not_ok [OF nok] response.simps)
    then show ?thesis by (simp only: fetchCompletionStreaming_def)
  qed
  have p3: "decode d (xs @ ys) = (let (d1, o1) = decode d xs; (d2, o2) = decode d1 ys in (d2, o1 @ o2))"
    by (rule decode_append)
  have p4: "inner_loop s = Pending s' \<longrightarrow>
      0x0A \<notin> set (buffer s') \<and>
      (\<exists>consumed. buffer s = consumed @ buffer s' \<and> (consumed = [] \<or> last consumed = 0x0A))"
    using inner_loop_Pending_no_newline inner_loop_retains by blast
  from p1 p2 p3 p4 show ?thesis by blast
qed

text \<open>
  The witness cuts a stream between the bytes C3 and A9, which encode the delta U+00E9:
  both runs return that one code unit.
\<close>

theorem stream_chunking_invariant_witness:
  \<open>inner_loop (new_reader\<lparr>buffer := js ''a\<newline>bc''\<rparr>) =
     Pending (new_reader\<lparr>buffer := js ''bc'', lines_read := [js ''a'']\<rparr>) \<and>
   observed (read_loop new_decoder new_reader
     [ascii_bytes ''data: {"choices":[{"delta":{"content":"'' @ [0xC3],
      [0xA9] @ ascii_bytes ''"}}]}\<newline>''] EndOfStream) =
   observed (read_loop new_decoder new_reader
     [concat [ascii_bytes ''data: {"choices":[{"delta":{"content":"'' @ [0xC3],
      [0xA9] @ ascii_bytes ''"}}]}\<newline>'']] EndOfStream) \<and>
   fst (read_loop new_decoder new_reader
     [ascii_bytes ''data: {"choices":[{"delta":{"content":"'' @ [0xC3],
      [0xA9] @ ascii_bytes ''"}}]}\<newline>''] EndOfStream) = Inr [0xE9] \<and>
   0x0A \<notin> set (js ''bc'') \<and>
   (\<exists>consumed. js ''a\<newline>bc'' = consumed @ js ''bc'' \<and> (consumed = [] \<or> last consumed = 0x0A))\<close>
proof -
  let ?s = \<open>new_reader\<lparr>buffer := js ''a\<newline>bc''\<rparr>\<close>
  let ?s' = \<open>new_reader\<lparr>buffer := js ''bc'', lines_read := [js ''a'']\<rparr>\<close>
  let ?chunks = \<open>[ascii_bytes ''data: {"choices":[{"delta":{"content":"'' @ [0xC3],
      [0xA9] @ ascii_bytes ''"}}]}\<newline>'']\<close>
  have il: "inner_loop ?s = Pending ?s'"
    by (simp add: stream_eval string_eval)
  have ev: "fst (read_loop new_decoder new_reader ?chunks EndOfStream) = Inr [0xE9]"
    by (simp add: stream_eval string_eval json_eval)
  from stream_chunking_invariant [of ?chunks EndOfStream _ _ _ _ _ _ ?s ?s'] il
  have "observed (read_loop new_decoder new_reader ?chunks EndOfStream) =
     observed (read_loop new_decoder new_reader [concat ?chunks] EndOfStream)"
   and "0x0A \<notin> set (buffer ?s')"
   and "\<exists>consumed. buffer ?s = consumed @ buffer ?s' \<and> (consumed = [] \<or> last consumed = 0x0A)"
    by blast+
  with il ev show ?thesis by (simp add: new_reader_def)
qed

lemmas line_eval = done_line_def data_line_def malformed_line_def delta_line_def payload_def

text \<open>
  The sentinel after any text that the inner loop has worked off: the loop returns the
  text accumulated over that text, with one more call of \<^verbatim>\<open>onText\<close>.
\<close>

lemma inner_loop_sentinel_after:
  assumes pre: "inner_loop (s\<lparr>buffer := pre\<rparr>) = Pending sp" and emp: "buffer sp = []"
    and dl: "done_line raw"
  shows "inner_loop (s\<lparr>buffer := pre @ raw @ 0x0A # rest\<rparr>) =
           Returned (sp\<lparr>buffer := rest, lines_read := lines_read sp @ [trimEnd raw],
                        onText_calls := onText_calls sp @ [result sp]\<rparr>)"
proof -
  let ?s = "s\<lparr>buffer := pre\<rparr>"
  let ?t = "raw @ 0x0A # rest"
  have e1: "s\<lparr>buffer := pre @ raw @ 0x0A # rest\<rparr> = ?s\<lparr>buffer := buffer ?s @ ?t\<rparr>" by simp
  have e2: "sp\<lparr>buffer := buffer sp @ ?t\<rparr> = sp\<lparr>buffer := raw @ 0x0A # rest\<rparr>"
    using emp by simp
  have "inner_loop (?s\<lparr>buffer := buffer ?s @ ?t\<rparr>) = inner_loop (sp\<lparr>buffer := buffer sp @ ?t\<rparr>)"
    by (simp only: inner_loop_append [of ?s ?t] pre outcome.case)
  also have "\<dots> = inner_loop (sp\<lparr>buffer := raw @ 0x0A # rest\<rparr>)" by (simp only: e2)
  also have "\<dots> = Returned (sp\<lparr>buffer := rest, lines_read := lines_read sp @ [trimEnd raw],
                        onText_calls := onText_calls sp @ [result sp]\<rparr>)"
    by (rule inner_loop_done [OF dl])
  finally show ?thesis by (simp only: e1)
qed

text \<open>
  The client on a stream whose decoded text holds a sentinel line after text that the
  inner loop works off without returning.
\<close>

lemma client_on_sentinel:
  assumes ok: "response_ok rsp" and body: "resp_body rsp = Some (chunks, t)"
    and dtext: "snd (decode new_decoder (concat chunks)) = pre @ raw @ 0x0A # rest"
    and pre: "inner_loop (new_reader\<lparr>buffer := pre\<rparr>) = Pending sp" and emp: "buffer sp = []"
    and dl: "done_line raw"
  shows "fetchCompletionStreaming a (FetchResolved rsp) =
           ([SetTimeout 20000, Fetch (build_request a)] @
              map OnText (onText_calls sp @ [result sp]) @ [ClearTimeout],
            Inr (result sp))"
proof -
  let ?sf = "sp\<lparr>buffer := rest, lines_read := lines_read sp @ [trimEnd raw],
                 onText_calls := onText_calls sp @ [result sp]\<rparr>"
  obtain d' where dec: "decode new_decoder (concat chunks) = (d', pre @ raw @ 0x0A # rest)"
    using dtext by (cases "decode new_decoder (concat chunks)") simp
  have il: "inner_loop (new_reader\<lparr>buffer := pre @ raw @ 0x0A # rest\<rparr>) = Returned ?sf"
    by (rule inner_loop_sentinel_after [OF pre emp dl])
  have b0: "buffer new_reader = []" by (simp add: new_reader_def)
  have one: "read_loop new_decoder new_reader [concat chunks] t = (Inr (result sp), ?sf)"
    using dec il b0 by simp
  have nb: "0x0A \<notin> set (buffer new_reader)" by (simp add: new_reader_def)
  have "observed (read_loop new_decoder new_reader chunks t) =
        observed (read_loop new_decoder new_reader [concat chunks] t)"
    using nb by (rule read_loop_chunks)
  then have f: "fst (read_loop new_decoder new_reader chunks t) = Inr (result sp)"
    and c: "onText_calls (snd (read_loop new_decoder new_reader chunks t)) = onText_calls sp @ [result sp]"
    by (simp_all only: one observed_def prod.inject fst_conv snd_conv) simp_all
  have "try_block (FetchResolved rsp) = (Inr (result sp), onText_calls sp @ [result sp])"
    by (simp only: try_block_stream [OF ok body] f c)
  then show ?thesis by (simp add: fetchCompletionStreaming_def)
qed

text \<open>
  Plain lines: each is handled without returning and adds its delta, so a text of plain
  lines is worked off completely, and the client that meets a sentinel line after plain
  lines returns their accumulated text.
\<close>

lemma handle_line_plain:
  assumes nl: "0x0A \<notin> set raw" and nd: "\<not> done_line raw"
  shows "handle_line (trimEnd raw) s =
           Pending (if spec_line_delta raw = [] then s
                    else s\<lparr>result := result s @ spec_line_delta raw,
                           onText_calls := onText_calls s @ [result s @ spec_line_delta raw]\<rparr>)"
  using assms
  by (auto simp: handle_line_def spec_line_delta_def data_line_def done_line_def payload_def Let_def
      split: option.splits)

lemma inner_loop_plain_lines:
  assumes "plain_lines raws"
  shows "inner_loop (s\<lparr>buffer := unlines raws @ rest\<rparr>) =
           inner_loop (s\<lparr>buffer := rest, result := result s @ spec_text raws,
                         onText_calls := onText_calls s @ spec_partials (result s) raws,
                         lines_read := lines_read s @ map trimEnd raws\<rparr>)"
  using assms
proof (induction raws arbitrary: s)
  case Nil
  show ?case by (simp add: unlines_def spec_text_def)
next
  case (Cons raw raws)
  from Cons.prems have nl: "0x0A \<notin> set raw" and nd: "\<not> done_line raw" and pl: "plain_lines raws"
    by (simp_all add: plain_lines_def)
  let ?d = "spec_line_delta raw"
  let ?s0 = "s\<lparr>buffer := unlines raws @ rest, lines_read := lines_read s @ [trimEnd raw]\<rparr>"
  let ?s1 = "if ?d = [] then ?s0
             else ?s0\<lparr>result := result ?s0 @ ?d, onText_calls := onText_calls ?s0 @ [result ?s0 @ ?d]\<rparr>"
  have b: "s\<lparr>buffer := unlines (raw # raws) @ rest\<rparr> = s\<lparr>buffer := raw @ 0x0A # (unlines raws @ rest)\<rparr>"
    by (simp add: unlines_def)
  have "inner_loop (s\<lparr>buffer := raw @ 0x0A # (unlines raws @ rest)\<rparr>) = inner_loop ?s1"
    by (simp only: inner_loop_line [OF nl] handle_line_plain [OF nl nd] outcome.case)
  also have "?s1 = ?s1\<lparr>buffer := unlines raws @ rest\<rparr>" by simp
  also have "inner_loop (?s1\<lparr>buffer := unlines raws @ rest\<rparr>) =
      inner_loop (?s1\<lparr>buffer := rest, result := result ?s1 @ spec_text raws,
                        onText_calls := onText_calls ?s1 @ spec_partials (result ?s1) raws,
                        lines_read := lines_read ?s1 @ map trimEnd raws\<rparr>)"
    by (rule Cons.IH [OF pl])
  also have "?s1\<lparr>buffer := rest, result := result ?s1 @ spec_text raws,
                        onText_calls := onText_calls ?s1 @ spec_partials (result ?s1) raws,
                        lines_read := lines_read ?s1 @ map trimEnd raws\<rparr> =
      s\<lparr>buffer := rest, result := result s @ spec_text (raw # raws),
        onText_calls := onText_calls s @ spec_partials (result s) (raw # raws),
        lines_read := lines_read s @ map trimEnd (raw # raws)\<rparr>"
    by (simp add: spec_text_def)
  finally show ?case by (simp only: b)
qed

lemma inner_loop_lines_only:
  assumes "plain_lines raws"
  shows "inner_loop (s\<lparr>buffer := unlines raws\<rparr>) =
           Pending (s\<lparr>buffer := [], result := result s @ spec_text raws,
                      onText_calls := onText_calls s @ spec_partials (result s) raws,
                      lines_read := lines_read s @ map trimEnd raws\<rparr>)"
  using inner_loop_plain_lines [OF assms, where s = s and rest = "[]"]
  by (simp add: inner_loop_no_newline)

lemma client_on_lines:
  assumes ok: "response_ok rsp" and body: "resp_body rsp = Some (chunks, t)"
    and dtext: "snd (decode new_decoder (concat chunks)) = unlines raws @ sentinel @ 0x0A # behind"
    and pl: "plain_lines raws" and dl: "done_line sentinel"
  shows "fetchCompletionStreaming a (FetchResolved rsp) =
           ([SetTimeout 20000, Fetch (build_request a)] @
              map OnText (spec_partials [] raws @ [spec_text raws]) @ [ClearTimeout],
            Inr (spec_text raws))"
proof -
  let ?sp = "new_reader\<lparr>buffer := [], result := result new_reader @ spec_text raws,
                      onText_calls := onText_calls new_reader @ spec_partials (result new_reader) raws,
                      lines_read := lines_read new_reader @ map trimEnd raws\<rparr>"
  have pre: "inner_loop (new_reader\<lparr>buffer := unlines raws\<rparr>) = Pending ?sp"
    by (rule inner_loop_lines_only [OF pl])
  have emp: "buffer ?sp = []" by simp
  from client_on_sentinel [OF ok body dtext pre emp dl, where a = a]
  show ?thesis by (simp add: new_reader_def)
qed

section \<open>The sentinel\<close>

text \<open>
  Claim C4. For every response with a body stream, cut into chunks in any way and ended
  in any way: when the decoded text consists of complete lines \<open>raws\<close>, none of them a
  sentinel line, then a sentinel line, then anything, the client returns the text
  accumulated over \<open>raws\<close>, that is the concatenation of their deltas. What follows the
  sentinel line has no influence, and neither has the end of the stream. The steps behind
  this: a sentinel line at the head of the buffer makes the inner loop return at once
  with the text accumulated so far, leaving the rest of the buffer as it is, so no later
  line is taken; the read loop then returns that text whatever chunks would follow and
  however the stream would end. In particular the stream of the specification, one delta
  \<^verbatim>\<open>x\<close> and the sentinel, returns \<^verbatim>\<open>x\<close> with any continuation \<open>later\<close> and any end \<open>t\<close>.
\<close>

theorem done_sentinel_short_circuits:
  \<open>(response_ok rsp \<and> resp_body rsp = Some (body_chunks, fin) \<and>
    snd (decode new_decoder (concat body_chunks)) = unlines raws @ sentinel @ 0x0A # behind \<and>
    plain_lines raws \<and> done_line sentinel \<longrightarrow>
      snd (fetchCompletionStreaming a (FetchResolved rsp)) = Inr (spec_text raws)) \<and>
   (done_line raw \<longrightarrow>
      (\<exists>s'. inner_loop (s\<lparr>buffer := raw @ 0x0A # rest\<rparr>) = Returned s' \<and>
            result s' = result s \<and> buffer s' = rest \<and>
            lines_read s' = lines_read s @ [trimEnd raw])) \<and>
   (inner_loop (s0\<lparr>buffer := buffer s0 @ snd (decode d c)\<rparr>) = Returned s1 \<longrightarrow>
      read_loop d s0 (c # later) t = (Inr (result s1), s1)) \<and>
   (fst (read_loop d s0 chunks (ReadRejected e)) = Inr r \<longrightarrow>
      read_loop d s0 (chunks @ later) t = read_loop d s0 chunks (ReadRejected e)) \<and>
   fst (read_loop new_decoder new_reader
     (ascii_bytes ''data: {"choices":[{"delta":{"content":"x"}}]}\<newline>\<newline>data: [DONE]\<newline>\<newline>'' # later) t) =
     Inr (js ''x'') \<and>
   snd (fetchCompletionStreaming a (FetchResolved \<lparr>resp_status = 200, resp_text = tx, resp_body =
     Some (ascii_bytes ''data: {"choices":[{"delta":{"content":"x"}}]}\<newline>\<newline>data: [DONE]\<newline>\<newline>'' # later, t)\<rparr>)) =
     Inr (js ''x'')\<close>
proof -
  let ?ex = \<open>ascii_bytes ''data: {"choices":[{"delta":{"content":"x"}}]}\<newline>\<newline>data: [DONE]\<newline>\<newline>''\<close>
  have p0: "response_ok rsp \<and> resp_body rsp = Some (body_chunks, fin) \<and>
    snd (decode new_decoder (concat body_chunks)) = unlines raws @ sentinel @ 0x0A # behind \<and>
    plain_lines raws \<and> done_line sentinel \<longrightarrow>
      snd (fetchCompletionStreaming a (FetchResolved rsp)) = Inr (spec_text raws)"
    by (auto simp: client_on_lines)
  have p1: "done_line raw \<longrightarrow>
      (\<exists>s'. inner_loop (s\<lparr>buffer := raw @ 0x0A # rest\<rparr>) = Returned s' \<and>
            result s' = result s \<and> buffer s' = rest \<and>
            lines_read s' = lines_read s @ [trimEnd raw])"
    by (simp add: inner_loop_done)
  have p2: "inner_loop (s0\<lparr>buffer := buffer s0 @ snd (decode d c)\<rparr>) = Returned s1 \<longrightarrow>
      read_loop d s0 (c # later) t = (Inr (result s1), s1)"
    by (cases "decode d c") simp
  have p3: "fst (read_loop d s0 chunks (ReadRejected e)) = Inr r \<longrightarrow>
      read_loop d s0 (chunks @ later) t = read_loop d s0 chunks (ReadRejected e)"
    using read_loop_returned_extends by blast
  have ev: "fst (read_loop new_decoder new_reader [?ex] (ReadRejected (TypeError []))) = Inr (js ''x'')"
    by (simp add: stream_eval string_eval json_eval)
  have p4: "fst (read_loop new_decoder new_reader (?ex # later) t) = Inr (js ''x'')"
    using read_loop_returned_extends [OF ev, of later t] ev by simp
  have ok: "response_ok \<lparr>resp_status = 200, resp_text = tx, resp_body = Some (?ex # later, t)\<rparr>"
    by (simp add: response_ok_def)
  have p5: "snd (fetchCompletionStreaming a (FetchResolved
      \<lparr>resp_status = 200, resp_text = tx, resp_body = Some (?ex # later, t)\<rparr>)) = Inr (js ''x'')"
    using p4 by (simp add: fetchCompletionStreaming_def try_block_stream [OF ok] del: read_loop.simps)
  from p0 p1 p2 p3 p4 p5 show ?thesis by blast
qed

text \<open>
  The witness. The client gets the stream of the specification followed by a further
  chunk with a delta \<^verbatim>\<open>y\<close>, and the stream then fails: the lines before the sentinel
  are the delta line and an empty line, their accumulated text is \<^verbatim>\<open>x\<close>, and the client
  returns \<^verbatim>\<open>x\<close>. With \<^verbatim>\<open>x\<close> accumulated, a sentinel line followed by a further delta
  line returns \<^verbatim>\<open>x\<close> and leaves that line in the buffer.
\<close>

theorem done_sentinel_short_circuits_witness:
  \<open>response_ok \<lparr>resp_status = 200, resp_text = Inr [], resp_body = Some
     ([ascii_bytes ''data: {"choices":[{"delta":{"content":"x"}}]}\<newline>\<newline>data: [DONE]\<newline>\<newline>'',
       ascii_bytes ''data: {"choices":[{"delta":{"content":"y"}}]}\<newline>''],
      ReadRejected (TypeError (js ''network error'')))\<rparr> \<and>
   snd (decode new_decoder (concat
     [ascii_bytes ''data: {"choices":[{"delta":{"content":"x"}}]}\<newline>\<newline>data: [DONE]\<newline>\<newline>'',
      ascii_bytes ''data: {"choices":[{"delta":{"content":"y"}}]}\<newline>''])) =
     unlines [js ''data: {"choices":[{"delta":{"content":"x"}}]}'', []] @ js ''data: [DONE]'' @ 0x0A #
     js ''\<newline>data: {"choices":[{"delta":{"content":"y"}}]}\<newline>'' \<and>
   plain_lines [js ''data: {"choices":[{"delta":{"content":"x"}}]}'', []] \<and>
   done_line (js ''data: [DONE]'') \<and>
   spec_text [js ''data: {"choices":[{"delta":{"content":"x"}}]}'', []] = js ''x'' \<and>
   snd (fetchCompletionStreaming \<lparr>apiUrl = js ''u'', apiKey = [], model = [], prompt = js ''p''\<rparr>
     (FetchResolved \<lparr>resp_status = 200, resp_text = Inr [], resp_body = Some
       ([ascii_bytes ''data: {"choices":[{"delta":{"content":"x"}}]}\<newline>\<newline>data: [DONE]\<newline>\<newline>'',
         ascii_bytes ''data: {"choices":[{"delta":{"content":"y"}}]}\<newline>''],
        ReadRejected (TypeError (js ''network error'')))\<rparr>)) = Inr (js ''x'') \<and>
   (\<exists>s'. inner_loop (new_reader\<lparr>result := js ''x'',
              buffer := js ''data: [DONE]'' @ 0x0A # js ''data: {"choices":[{"delta":{"content":"y"}}]}\<newline>''\<rparr>) =
            Returned s' \<and>
          result s' = js ''x'' \<and>
          buffer s' = js ''data: {"choices":[{"delta":{"content":"y"}}]}\<newline>'' \<and>
          lines_read s' = [js ''data: [DONE]'']) \<and>
   fst (read_loop new_decoder new_reader
     [ascii_bytes ''data: {"choices":[{"delta":{"content":"x"}}]}\<newline>\<newline>data: [DONE]\<newline>\<newline>'']
     (ReadRejected (TypeError (js ''network error'')))) = Inr (js ''x'') \<and>
   read_loop new_decoder new_reader
     ([ascii_bytes ''data: {"choices":[{"delta":{"content":"x"}}]}\<newline>\<newline>data: [DONE]\<newline>\<newline>''] @
      [ascii_bytes ''data: {"choices":[{"delta":{"content":"y"}}]}\<newline>'']) EndOfStream =
   read_loop new_decoder new_reader
     [ascii_bytes ''data: {"choices":[{"delta":{"content":"x"}}]}\<newline>\<newline>data: [DONE]\<newline>\<newline>'']
     (ReadRejected (TypeError (js ''network error'')))\<close>
proof -
  let ?ex = \<open>ascii_bytes ''data: {"choices":[{"delta":{"content":"x"}}]}\<newline>\<newline>data: [DONE]\<newline>\<newline>''\<close>
  let ?yb = \<open>ascii_bytes ''data: {"choices":[{"delta":{"content":"y"}}]}\<newline>''\<close>
  let ?y = \<open>js ''data: {"choices":[{"delta":{"content":"y"}}]}\<newline>''\<close>
  let ?s = \<open>new_reader\<lparr>result := js ''x''\<rparr>\<close>
  let ?e = \<open>TypeError (js ''network error'')\<close>
  let ?rsp = \<open>\<lparr>resp_status = 200, resp_text = Inr [], resp_body = Some ([?ex, ?yb], ReadRejected ?e)\<rparr>\<close>
  let ?raws = \<open>[js ''data: {"choices":[{"delta":{"content":"x"}}]}'', []]\<close>
  let ?behind = \<open>js ''\<newline>data: {"choices":[{"delta":{"content":"y"}}]}\<newline>''\<close>
  let ?a = \<open>\<lparr>apiUrl = js ''u'', apiKey = [], model = [], prompt = js ''p''\<rparr>\<close>
  have ok: "response_ok ?rsp" by (simp add: response_ok_def)
  have bd: "resp_body ?rsp = Some ([?ex, ?yb], ReadRejected ?e)" by simp
  have dc: "snd (decode new_decoder (concat [?ex, ?yb])) = unlines ?raws @ js ''data: [DONE]'' @ 0x0A # ?behind"
    by (simp add: stream_eval string_eval unlines_def)
  have pl: "plain_lines ?raws"
    by (simp add: plain_lines_def line_eval string_eval)
  have st: "spec_text ?raws = js ''x''"
    by (simp add: spec_text_def spec_line_delta_def line_eval string_eval json_eval
        getStreamDeltaContent_def content_of_def)
  have dl: "done_line (js ''data: [DONE]'')"
    by (simp add: line_eval string_eval)
  have te: "trimEnd (js ''data: [DONE]'') = js ''data: [DONE]''"
    by (simp add: string_eval)
  have ev: "fst (read_loop new_decoder new_reader [?ex] (ReadRejected ?e)) = Inr (js ''x'')"
    by (simp add: stream_eval string_eval json_eval)
  note th = done_sentinel_short_circuits [where raw = "js ''data: [DONE]''" and s = ?s and rest = ?y
      and later = "[?yb]" and t = EndOfStream and chunks = "[?ex]" and e = ?e and r = "js ''x''"
      and d = new_decoder and ?s0.0 = new_reader
      and rsp = ?rsp and body_chunks = "[?ex, ?yb]" and fin = "ReadRejected ?e" and raws = ?raws
      and sentinel = "js ''data: [DONE]''" and behind = ?behind and a = ?a]
  from th ok bd dc pl dl
  have c0: "snd (fetchCompletionStreaming ?a (FetchResolved ?rsp)) = Inr (spec_text ?raws)"
    by blast
  then have c0': "snd (fetchCompletionStreaming ?a (FetchResolved ?rsp)) = Inr (js ''x'')"
    by (simp only: st)
  from th dl have c1: "\<exists>s'. inner_loop (?s\<lparr>buffer := js ''data: [DONE]'' @ 0x0A # ?y\<rparr>) = Returned s' \<and>
            result s' = result ?s \<and> buffer s' = ?y \<and>
            lines_read s' = lines_read ?s @ [trimEnd (js ''data: [DONE]'')]"
    by blast
  from th ev have c2: "read_loop new_decoder new_reader ([?ex] @ [?yb]) EndOfStream =
      read_loop new_decoder new_reader [?ex] (ReadRejected ?e)"
    by blast
  from c1 have c1': "\<exists>s'. inner_loop (new_reader\<lparr>result := js ''x'',
              buffer := js ''data: [DONE]'' @ 0x0A # ?y\<rparr>) = Returned s' \<and>
          result s' = js ''x'' \<and> buffer s' = ?y \<and> lines_read s' = [js ''data: [DONE]'']"
    by (simp add: te new_reader_def)
  from ok dc pl dl st c0' c1' ev c2 show ?thesis by blast
qed


lemma inner_loop_delta_at:
  assumes "delta_line raw d" and "buffer s = raw @ 0x0A # rest"
  shows "inner_loop s =
           inner_loop (s\<lparr>buffer := rest, lines_read := lines_read s @ [trimEnd raw],
                         result := result s @ d, onText_calls := onText_calls s @ [result s @ d]\<rparr>)"
proof -
  have "s\<lparr>buffer := raw @ 0x0A # rest\<rparr> = s" using assms(2) by simp
  with inner_loop_delta [OF assms(1), where s = s and rest = rest] show ?thesis by simp
qed

lemma inner_loop_malformed_at:
  assumes "malformed_line raw" and "buffer s = raw @ 0x0A # rest"
  shows "inner_loop s = inner_loop (s\<lparr>buffer := rest, lines_read := lines_read s @ [trimEnd raw]\<rparr>)"
proof -
  have "s\<lparr>buffer := raw @ 0x0A # rest\<rparr> = s" using assms(2) by simp
  with inner_loop_malformed [OF assms(1), where s = s and rest = rest] show ?thesis by simp
qed

text \<open>
  Claim C10. For every response with a body stream, cut into chunks in any way and ended
  in any way: when the decoded text consists of complete lines \<open>raws\<close>, none of them a
  sentinel line, then a sentinel line, then anything, the client makes the calls of
  \<^verbatim>\<open>onText\<close> that the deltas of \<open>raws\<close> give rise to, then exactly one more call with the
  text accumulated over \<open>raws\<close>, then clears the timer and returns that text. Nothing is
  required of the text, which may be empty or equal to the argument of the previous
  call. The steps behind this: on a sentinel line the inner loop calls \<^verbatim>\<open>onText\<close>
  exactly once more, with the text accumulated so far, and returns that text; a run of
  the read loop that returns a text although the stream fails at its end has that text as
  the argument of its last call, and the client then ends with that call and the clearing
  of the timer.
\<close>

theorem done_sentinel_final_callback:
  "(response_ok rsp0 \<and> resp_body rsp0 = Some (body_chunks, fin) \<and>
    snd (decode new_decoder (concat body_chunks)) = unlines raws @ sentinel @ 0x0A # behind \<and>
    plain_lines raws \<and> done_line sentinel \<longrightarrow>
      fetchCompletionStreaming a0 (FetchResolved rsp0) =
        ([SetTimeout 20000, Fetch (build_request a0)] @
           map OnText (spec_partials [] raws @ [spec_text raws]) @ [ClearTimeout],
         Inr (spec_text raws))) \<and>
   (done_line raw \<longrightarrow>
      (\<exists>s'. inner_loop (s\<lparr>buffer := raw @ 0x0A # rest\<rparr>) = Returned s' \<and>
            onText_calls s' = onText_calls s @ [result s] \<and> result s' = result s)) \<and>
   (read_loop d s0 chunks (ReadRejected e) = (Inr r, s1) \<longrightarrow>
      (\<exists>calls. onText_calls s1 = calls @ [r])) \<and>
   (response_ok rsp \<and> resp_body rsp = Some (chunks, ReadRejected e) \<and>
    snd (fetchCompletionStreaming a (FetchResolved rsp)) = Inr r \<longrightarrow>
      (\<exists>calls. fst (fetchCompletionStreaming a (FetchResolved rsp)) =
         [SetTimeout 20000, Fetch (build_request a)] @ map OnText calls @ [OnText r, ClearTimeout]))"
proof -
  have p0: "response_ok rsp0 \<and> resp_body rsp0 = Some (body_chunks, fin) \<and>
    snd (decode new_decoder (concat body_chunks)) = unlines raws @ sentinel @ 0x0A # behind \<and>
    plain_lines raws \<and> done_line sentinel \<longrightarrow>
      fetchCompletionStreaming a0 (FetchResolved rsp0) =
        ([SetTimeout 20000, Fetch (build_request a0)] @
           map OnText (spec_partials [] raws @ [spec_text raws]) @ [ClearTimeout],
         Inr (spec_text raws))"
    using client_on_lines by blast
  have p1: "done_line raw \<longrightarrow>
      (\<exists>s'. inner_loop (s\<lparr>buffer := raw @ 0x0A # rest\<rparr>) = Returned s' \<and>
            onText_calls s' = onText_calls s @ [result s] \<and> result s' = result s)"
    by (simp add: inner_loop_done)
  have p2: "read_loop d s0 chunks (ReadRejected e) = (Inr r, s1) \<longrightarrow>
      (\<exists>calls. onText_calls s1 = calls @ [r])"
    using read_loop_returned_last_call by blast
  have p3: "response_ok rsp \<and> resp_body rsp = Some (chunks, ReadRejected e) \<and>
    snd (fetchCompletionStreaming a (FetchResolved rsp)) = Inr r \<longrightarrow>
      (\<exists>calls. fst (fetchCompletionStreaming a (FetchResolved rsp)) =
         [SetTimeout 20000, Fetch (build_request a)] @ map OnText calls @ [OnText r, ClearTimeout])"
  proof
    assume h: "response_ok rsp \<and> resp_body rsp = Some (chunks, ReadRejected e) \<and>
      snd (fetchCompletionStreaming a (FetchResolved rsp)) = Inr r"
    obtain res sf where rl: "read_loop new_decoder new_reader chunks (ReadRejected e) = (res, sf)"
      by (cases "read_loop new_decoder new_reader chunks (ReadRejected e)")
    from h have tb: "try_block (FetchResolved rsp) = (res, onText_calls sf)"
      by (simp add: try_block_stream rl)
    with h have "res = Inr r"
      by (cases res) (simp_all add: fetchCompletionStreaming_def)
    with rl read_loop_returned_last_call obtain calls where c: "onText_calls sf = calls @ [r]"
      by blast
    have "fst (fetchCompletionStreaming a (FetchResolved rsp)) =
         [SetTimeout 20000, Fetch (build_request a)] @ map OnText calls @ [OnText r, ClearTimeout]"
      by (simp add: fetchCompletionStreaming_def tb c)
    then show "\<exists>calls. fst (fetchCompletionStreaming a (FetchResolved rsp)) =
         [SetTimeout 20000, Fetch (build_request a)] @ map OnText calls @ [OnText r, ClearTimeout]"
      by blast
  qed
  from p0 p1 p2 p3 show ?thesis by blast
qed

text \<open>
  The witness. On a stream that is the sentinel alone the client makes one call, with
  the empty text, and returns the empty text. On the stream of the specification, which
  then fails, it calls \<^verbatim>\<open>onText\<close> with \<^verbatim>\<open>x\<close> for the delta and again with \<^verbatim>\<open>x\<close> for the
  sentinel, clears the timer and returns \<^verbatim>\<open>x\<close>.
\<close>

theorem done_sentinel_final_callback_witness:
  \<open>done_line (js ''data: [DONE]'') \<and>
   response_ok \<lparr>resp_status = 200, resp_text = Inr [],
     resp_body = Some ([ascii_bytes ''data: [DONE]\<newline>''], EndOfStream)\<rparr> \<and>
   snd (decode new_decoder (concat [ascii_bytes ''data: [DONE]\<newline>''])) =
     unlines [] @ js ''data: [DONE]'' @ 0x0A # [] \<and>
   plain_lines [] \<and>
   fetchCompletionStreaming \<lparr>apiUrl = js ''u'', apiKey = [], model = [], prompt = js ''p''\<rparr>
     (FetchResolved \<lparr>resp_status = 200, resp_text = Inr [],
        resp_body = Some ([ascii_bytes ''data: [DONE]\<newline>''], EndOfStream)\<rparr>) =
     ([SetTimeout 20000,
       Fetch (build_request \<lparr>apiUrl = js ''u'', apiKey = [], model = [], prompt = js ''p''\<rparr>),
       OnText [], ClearTimeout], Inr []) \<and>
   response_ok \<lparr>resp_status = 200, resp_text = Inr [], resp_body = Some
     ([ascii_bytes ''data: {"choices":[{"delta":{"content":"x"}}]}\<newline>\<newline>data: [DONE]\<newline>\<newline>''],
      ReadRejected (TypeError (js ''network error'')))\<rparr> \<and>
   snd (decode new_decoder (concat
     [ascii_bytes ''data: {"choices":[{"delta":{"content":"x"}}]}\<newline>\<newline>data: [DONE]\<newline>\<newline>''])) =
     unlines [js ''data: {"choices":[{"delta":{"content":"x"}}]}'', []] @ js ''data: [DONE]'' @ 0x0A # js ''\<newline>'' \<and>
   plain_lines [js ''data: {"choices":[{"delta":{"content":"x"}}]}'', []] \<and>
   spec_partials [] [js ''data: {"choices":[{"delta":{"content":"x"}}]}'', []] = [js ''x''] \<and>
   spec_text [js ''data: {"choices":[{"delta":{"content":"x"}}]}'', []] = js ''x'' \<and>
   fetchCompletionStreaming \<lparr>apiUrl = js ''u'', apiKey = [], model = [], prompt = js ''p''\<rparr>
     (FetchResolved \<lparr>resp_status = 200, resp_text = Inr [], resp_body = Some
       ([ascii_bytes ''data: {"choices":[{"delta":{"content":"x"}}]}\<newline>\<newline>data: [DONE]\<newline>\<newline>''],
        ReadRejected (TypeError (js ''network error'')))\<rparr>) =
     ([SetTimeout 20000,
       Fetch (build_request \<lparr>apiUrl = js ''u'', apiKey = [], model = [], prompt = js ''p''\<rparr>),
       OnText (js ''x''), OnText (js ''x''), ClearTimeout], Inr (js ''x'')) \<and>
   (\<exists>s'. inner_loop (new_reader\<lparr>buffer := js ''data: [DONE]'' @ 0x0A # []\<rparr>) = Returned s' \<and>
         onText_calls s' = [[]] \<and> result s' = []) \<and>
   read_loop new_decoder new_reader
     [ascii_bytes ''data: {"choices":[{"delta":{"content":"x"}}]}\<newline>\<newline>data: [DONE]\<newline>\<newline>'']
     (ReadRejected (TypeError (js ''network error''))) =
     (Inr (js ''x''),
      \<lparr>buffer = js ''\<newline>'', result = js ''x'', onText_calls = [js ''x'', js ''x''],
       lines_read = [js ''data: {"choices":[{"delta":{"content":"x"}}]}'', [], js ''data: [DONE]'']\<rparr>) \<and>
   (\<exists>calls. [js ''x'', js ''x''] = calls @ [js ''x'']) \<and>
   (\<exists>calls. fst (fetchCompletionStreaming \<lparr>apiUrl = js ''u'', apiKey = [], model = [], prompt = js ''p''\<rparr>
     (FetchResolved \<lparr>resp_status = 200, resp_text = Inr [], resp_body = Some
       ([ascii_bytes ''data: {"choices":[{"delta":{"content":"x"}}]}\<newline>\<newline>data: [DONE]\<newline>\<newline>''],
        ReadRejected (TypeError (js ''network error'')))\<rparr>)) =
     [SetTimeout 20000,
      Fetch (build_request \<lparr>apiUrl = js ''u'', apiKey = [], model = [], prompt = js ''p''\<rparr>)] @
     map OnText calls @ [OnText (js ''x''), ClearTimeout])\<close>
proof -
  let ?ex = \<open>ascii_bytes ''data: {"choices":[{"delta":{"content":"x"}}]}\<newline>\<newline>data: [DONE]\<newline>\<newline>''\<close>
  let ?dn = \<open>ascii_bytes ''data: [DONE]\<newline>''\<close>
  let ?e = \<open>TypeError (js ''network error'')\<close>
  let ?a = \<open>\<lparr>apiUrl = js ''u'', apiKey = [], model = [], prompt = js ''p''\<rparr>\<close>
  let ?rspd = \<open>\<lparr>resp_status = 200, resp_text = Inr [], resp_body = Some ([?dn], EndOfStream)\<rparr>\<close>
  let ?rspx = \<open>\<lparr>resp_status = 200, resp_text = Inr [], resp_body = Some ([?ex], ReadRejected ?e)\<rparr>\<close>
  let ?raws = \<open>[js ''data: {"choices":[{"delta":{"content":"x"}}]}'', []]\<close>
  let ?sf = \<open>\<lparr>buffer = js ''\<newline>'', result = js ''x'', onText_calls = [js ''x'', js ''x''],
       lines_read = [js ''data: {"choices":[{"delta":{"content":"x"}}]}'', [], js ''data: [DONE]'']\<rparr>\<close>
  have dl: "done_line (js ''data: [DONE]'')"
    by (simp add: line_eval string_eval)
  have okd: "response_ok ?rspd" by (simp add: response_ok_def)
  have bdd: "resp_body ?rspd = Some ([?dn], EndOfStream)" by simp
  have dcd: "snd (decode new_decoder (concat [?dn])) = unlines [] @ js ''data: [DONE]'' @ 0x0A # []"
    by (simp add: stream_eval string_eval unlines_def)
  have pld: "plain_lines []" by (simp add: plain_lines_def)
  have okx: "response_ok ?rspx" by (simp add: response_ok_def)
  have bdx: "resp_body ?rspx = Some ([?ex], ReadRejected ?e)" by simp
  have dcx: "snd (decode new_decoder (concat [?ex])) = unlines ?raws @ js ''data: [DONE]'' @ 0x0A # js ''\<newline>''"
    by (simp add: stream_eval string_eval unlines_def)
  have plx: "plain_lines ?raws"
    by (simp add: plain_lines_def line_eval string_eval)
  have sld: "spec_line_delta (js ''data: {\"choices\":[{\"delta\":{\"content\":\"x\"}}]}'') = js ''x''"
    by (simp add: spec_line_delta_def line_eval string_eval json_eval
        getStreamDeltaContent_def content_of_def)
  have sle: "spec_line_delta [] = []"
    by (simp add: spec_line_delta_def line_eval string_eval)
  have spx: "spec_partials [] ?raws = [js ''x'']"
    by (simp add: sld sle) (simp add: string_eval)
  have stx: "spec_text ?raws = js ''x''"
    by (simp add: spec_text_def sld sle)
  have ev: "read_loop new_decoder new_reader [?ex] (ReadRejected ?e) = (Inr (js ''x''), ?sf)"
    by (simp add: stream_eval string_eval json_eval)
  note thd = done_sentinel_final_callback [where raw = "js ''data: [DONE]''" and s = new_reader
      and rest = "[]" and ?rsp0.0 = ?rspd and body_chunks = "[?dn]" and fin = EndOfStream
      and raws = "[]" and sentinel = "js ''data: [DONE]''" and behind = "[]" and ?a0.0 = ?a]
  note thx = done_sentinel_final_callback [where d = new_decoder and ?s0.0 = new_reader
      and chunks = "[?ex]" and e = ?e and r = "js ''x''" and ?s1.0 = ?sf
      and ?rsp0.0 = ?rspx and body_chunks = "[?ex]" and fin = "ReadRejected ?e"
      and raws = ?raws and sentinel = "js ''data: [DONE]''" and behind = "js ''\<newline>''"
      and ?a0.0 = ?a and rsp = ?rspx and a = ?a]
  from thd okd bdd dcd pld dl
  have d0: "fetchCompletionStreaming ?a (FetchResolved ?rspd) =
        ([SetTimeout 20000, Fetch (build_request ?a)] @
           map OnText (spec_partials [] [] @ [spec_text []]) @ [ClearTimeout],
         Inr (spec_text []))"
    by blast
  then have d0': "fetchCompletionStreaming ?a (FetchResolved ?rspd) =
        ([SetTimeout 20000, Fetch (build_request ?a), OnText [], ClearTimeout], Inr [])"
    by (simp add: spec_text_def)
  from thx okx bdx dcx plx dl
  have x0: "fetchCompletionStreaming ?a (FetchResolved ?rspx) =
        ([SetTimeout 20000, Fetch (build_request ?a)] @
           map OnText (spec_partials [] ?raws @ [spec_text ?raws]) @ [ClearTimeout],
         Inr (spec_text ?raws))"
    by blast
  then have x0': "fetchCompletionStreaming ?a (FetchResolved ?rspx) =
        ([SetTimeout 20000, Fetch (build_request ?a), OnText (js ''x''), OnText (js ''x''),
          ClearTimeout], Inr (js ''x''))"
    by (simp only: spx stx) simp
  from thd dl have c1: "\<exists>s'. inner_loop (new_reader\<lparr>buffer := js ''data: [DONE]'' @ 0x0A # []\<rparr>) = Returned s' \<and>
            onText_calls s' = onText_calls new_reader @ [result new_reader] \<and>
            result s' = result new_reader"
    by blast
  from thx ev have c2: "\<exists>calls. onText_calls ?sf = calls @ [js ''x'']" by blast
  from x0' have sx: "snd (fetchCompletionStreaming ?a (FetchResolved ?rspx)) = Inr (js ''x'')"
    by simp
  from thx okx bdx sx
  have c3: "\<exists>calls. fst (fetchCompletionStreaming ?a (FetchResolved ?rspx)) =
         [SetTimeout 20000, Fetch (build_request ?a)] @ map OnText calls @ [OnText (js ''x''), ClearTimeout]"
    by blast
  from c1 have c1': "\<exists>s'. inner_loop (new_reader\<lparr>buffer := js ''data: [DONE]'' @ 0x0A # []\<rparr>) = Returned s' \<and>
         onText_calls s' = [[]] \<and> result s' = []"
    by (simp add: new_reader_def)
  from c2 have c2': "\<exists>calls. [js ''x'', js ''x''] = calls @ [js ''x'']" by simp
  from dl okd dcd pld d0' okx dcx plx spx stx x0' c1' ev c2' c3 show ?thesis by blast
qed

section \<open>Malformed lines\<close>

text \<open>
  Claim C5. A data line whose payload \<^verbatim>\<open>JSON.parse\<close> rejects leaves the state as it is
  (the accumulated text and the calls of \<^verbatim>\<open>onText\<close> included) and the loop goes on with
  the rest of the buffer. A malformed line between two delta lines therefore yields the
  concatenation of the two deltas, at the end of the inner loop and as the value returned
  when the stream ends there; \<^verbatim>\<open>data: not-json\<close> is such a malformed line.
\<close>

theorem malformed_line_is_skipped:
  "(malformed_line raw \<longrightarrow>
      handle_line (trimEnd raw) s = Pending s \<and>
      inner_loop (s\<lparr>buffer := raw @ 0x0A # rest\<rparr>) =
        inner_loop (s\<lparr>buffer := rest, lines_read := lines_read s @ [trimEnd raw]\<rparr>)) \<and>
   (delta_line r1 d1 \<and> malformed_line bad \<and> delta_line r2 d2 \<longrightarrow>
      inner_loop (new_reader\<lparr>buffer := r1 @ 0x0A # bad @ 0x0A # r2 @ [0x0A]\<rparr>) =
        Pending \<lparr>buffer = [], result = d1 @ d2, onText_calls = [d1, d1 @ d2],
                 lines_read = [trimEnd r1, trimEnd bad, trimEnd r2]\<rparr> \<and>
      (snd (decode d c) = r1 @ 0x0A # bad @ 0x0A # r2 @ [0x0A] \<longrightarrow>
         fst (read_loop d new_reader [c] EndOfStream) = Inr (d1 @ d2))) \<and>
   malformed_line (js ''data: not-json'')"
proof -
  have p1: "malformed_line raw \<longrightarrow>
      handle_line (trimEnd raw) s = Pending s \<and>
      inner_loop (s\<lparr>buffer := raw @ 0x0A # rest\<rparr>) =
        inner_loop (s\<lparr>buffer := rest, lines_read := lines_read s @ [trimEnd raw]\<rparr>)"
    by (auto simp: inner_loop_malformed) (simp add: malformed_line_def data_line_def payload_def handle_line_def)
  have p2: "delta_line r1 d1 \<and> malformed_line bad \<and> delta_line r2 d2 \<longrightarrow>
      inner_loop (new_reader\<lparr>buffer := r1 @ 0x0A # bad @ 0x0A # r2 @ [0x0A]\<rparr>) =
        Pending \<lparr>buffer = [], result = d1 @ d2, onText_calls = [d1, d1 @ d2],
                 lines_read = [trimEnd r1, trimEnd bad, trimEnd r2]\<rparr> \<and>
      (snd (decode d c) = r1 @ 0x0A # bad @ 0x0A # r2 @ [0x0A] \<longrightarrow>
         fst (read_loop d new_reader [c] EndOfStream) = Inr (d1 @ d2))"
  proof
    assume h: "delta_line r1 d1 \<and> malformed_line bad \<and> delta_line r2 d2"
    then have l1: "delta_line r1 d1" and lb: "malformed_line bad" and l2: "delta_line r2 d2"
      by blast+
    from l1 have ne: "d1 \<noteq> []" by (simp add: delta_line_def)
    have il: "inner_loop (new_reader\<lparr>buffer := r1 @ 0x0A # bad @ 0x0A # r2 @ [0x0A]\<rparr>) =
        Pending \<lparr>buffer = [], result = d1 @ d2, onText_calls = [d1, d1 @ d2],
                 lines_read = [trimEnd r1, trimEnd bad, trimEnd r2]\<rparr>"
    proof -
      let ?s0 = "new_reader\<lparr>buffer := r1 @ 0x0A # bad @ 0x0A # r2 @ [0x0A]\<rparr>"
      let ?s1 = "\<lparr>buffer = bad @ 0x0A # r2 @ [0x0A], result = d1, onText_calls = [d1],
                  lines_read = [trimEnd r1]\<rparr>"
      let ?s2 = "\<lparr>buffer = r2 @ [0x0A], result = d1, onText_calls = [d1],
                  lines_read = [trimEnd r1, trimEnd bad]\<rparr>"
      let ?s3 = "\<lparr>buffer = [], result = d1 @ d2, onText_calls = [d1, d1 @ d2],
                  lines_read = [trimEnd r1, trimEnd bad, trimEnd r2]\<rparr>"
      have "inner_loop ?s0 = inner_loop ?s1"
        using inner_loop_delta_at [OF l1, where s = ?s0 and rest = "bad @ 0x0A # r2 @ [0x0A]"]
        by (simp add: new_reader_def)
      also have "\<dots> = inner_loop ?s2"
        using inner_loop_malformed_at [OF lb, where s = ?s1 and rest = "r2 @ [0x0A]"] by simp
      also have "\<dots> = inner_loop ?s3"
        using inner_loop_delta_at [OF l2, where s = ?s2 and rest = "[]"] by simp
      also have "\<dots> = Pending ?s3" by (simp add: inner_loop_no_newline)
      finally show ?thesis .
    qed
    have "fst (read_loop d new_reader [c] EndOfStream) = Inr (d1 @ d2)"
      if dec: "snd (decode d c) = r1 @ 0x0A # bad @ 0x0A # r2 @ [0x0A]"
    proof -
      obtain d' where "decode d c = (d', r1 @ 0x0A # bad @ 0x0A # r2 @ [0x0A])"
        using dec by (cases "decode d c") simp
      moreover have "buffer new_reader = []" by (simp add: new_reader_def)
      ultimately show ?thesis using il ne by (simp add: Let_def)
    qed
    with il show "inner_loop (new_reader\<lparr>buffer := r1 @ 0x0A # bad @ 0x0A # r2 @ [0x0A]\<rparr>) =
        Pending \<lparr>buffer = [], result = d1 @ d2, onText_calls = [d1, d1 @ d2],
                 lines_read = [trimEnd r1, trimEnd bad, trimEnd r2]\<rparr> \<and>
      (snd (decode d c) = r1 @ 0x0A # bad @ 0x0A # r2 @ [0x0A] \<longrightarrow>
         fst (read_loop d new_reader [c] EndOfStream) = Inr (d1 @ d2))"
      by blast
  qed
  have p3: "malformed_line (js ''data: not-json'')"
    by (simp add: line_eval string_eval json_eval)
  from p1 p2 p3 show ?thesis by blast
qed

text \<open>
  The witness is the stream of the specification: the deltas \<^verbatim>\<open>x\<close> and \<^verbatim>\<open>y\<close> around
  the line \<^verbatim>\<open>data: not-json\<close>.
\<close>

theorem malformed_line_is_skipped_witness:
  \<open>delta_line (js ''data: {"choices":[{"delta":{"content":"x"}}]}'') (js ''x'') \<and>
   malformed_line (js ''data: not-json'') \<and>
   delta_line (js ''data: {"choices":[{"delta":{"content":"y"}}]}'') (js ''y'') \<and>
   handle_line (trimEnd (js ''data: not-json'')) (new_reader\<lparr>result := js ''x''\<rparr>) =
     Pending (new_reader\<lparr>result := js ''x''\<rparr>) \<and>
   fst (read_loop new_decoder new_reader
     [ascii_bytes ''data: {"choices":[{"delta":{"content":"x"}}]}\<newline>data: not-json\<newline>data: {"choices":[{"delta":{"content":"y"}}]}\<newline>'']
     EndOfStream) = Inr (js ''x'' @ js ''y'')\<close>
proof -
  let ?r1 = \<open>js ''data: {"choices":[{"delta":{"content":"x"}}]}''\<close>
  let ?r2 = \<open>js ''data: {"choices":[{"delta":{"content":"y"}}]}''\<close>
  let ?bad = \<open>js ''data: not-json''\<close>
  let ?c = \<open>ascii_bytes ''data: {"choices":[{"delta":{"content":"x"}}]}\<newline>data: not-json\<newline>data: {"choices":[{"delta":{"content":"y"}}]}\<newline>''\<close>
  have l1: "delta_line ?r1 (js ''x'')"
    by (simp add: line_eval string_eval json_eval getStreamDeltaContent_def content_of_def)
  have l2: "delta_line ?r2 (js ''y'')"
    by (simp add: line_eval string_eval json_eval getStreamDeltaContent_def content_of_def)
  have lb: "malformed_line ?bad"
    by (simp add: line_eval string_eval json_eval)
  have dec: "snd (decode new_decoder ?c) = ?r1 @ 0x0A # ?bad @ 0x0A # ?r2 @ [0x0A]"
    by (simp add: stream_eval string_eval)
  note th = malformed_line_is_skipped [where raw = ?bad and s = "new_reader\<lparr>result := js ''x''\<rparr>"
      and ?r1.0 = ?r1 and ?d1.0 = "js ''x''" and bad = ?bad and ?r2.0 = ?r2 and ?d2.0 = "js ''y''"
      and d = new_decoder and c = ?c]
  from th lb have c1: "handle_line (trimEnd ?bad) (new_reader\<lparr>result := js ''x''\<rparr>) =
      Pending (new_reader\<lparr>result := js ''x''\<rparr>)"
    by blast
  from th l1 lb l2 dec have c2: "fst (read_loop new_decoder new_reader [?c] EndOfStream) = Inr (js ''x'' @ js ''y'')"
    by blast
  from l1 lb l2 c1 c2 show ?thesis by blast
qed

lemma Ball_dropWhile_iff: "(\<forall>x\<in>set (dropWhile P xs). P x) \<longleftrightarrow> (\<forall>x\<in>set xs. P x)"
proof (induction xs)
  case Nil
  then show ?case by simp
next
  case (Cons x xs)
  then show ?case by (cases "P x") auto
qed

lemma trim_Nil_iff: "trim v = [] \<longleftrightarrow> list_all isWhiteSpace v"
proof -
  have "trim v = [] \<longleftrightarrow> dropWhile isWhiteSpace (rev (dropWhile isWhiteSpace v)) = []"
    by (simp add: trim_def trimEnd_def trimStart_def)
  also have "\<dots> \<longleftrightarrow> (\<forall>x\<in>set (dropWhile isWhiteSpace v). isWhiteSpace x)"
    by (simp add: dropWhile_eq_Nil_conv)
  also have "\<dots> \<longleftrightarrow> (\<forall>x\<in>set v. isWhiteSpace x)"
    by (rule Ball_dropWhile_iff)
  also have "\<dots> \<longleftrightarrow> list_all isWhiteSpace v"
    by (simp add: list_all_iff)
  finally show ?thesis .
qed

lemma addSection_spec:
  "addSection label (string_field data k) children =
     children @ spec_section label (get_prop data k)"
  by (auto simp: addSection_def string_field_def spec_section_def trim_Nil_iff
      split: option.splits json.splits)

lemma string_field_present:
  "string_field data k = (case present (get_prop data k) of Some v \<Rightarrow> v | None \<Rightarrow> [])"
  by (simp add: string_field_def present_def split: option.splits json.splits)

lemma present_nonempty: "present f = Some v \<Longrightarrow> v \<noteq> []"
  by (auto simp: present_def split: option.splits json.splits if_splits)

lemma add_example_spec: "add_example items example = items @ spec_example example"
proof (cases "is_object example")
  case False
  then show ?thesis by (simp add: add_example_def spec_example_def)
next
  case True
  show ?thesis
  proof (cases "present (get_prop example (js ''text''))")
    case None
    note t = None
    show ?thesis
    proof (cases "present (get_prop example (js ''explain''))")
      case None
      with t True show ?thesis
        by (simp add: add_example_def spec_example_def string_field_present)
    next
      case (Some x)
      with t True present_nonempty [OF Some] show ?thesis
        by (simp add: add_example_def spec_example_def string_field_present)
    qed
  next
    case (Some tv)
    note t = Some
    show ?thesis
    proof (cases "present (get_prop example (js ''explain''))")
      case None
      with t True present_nonempty [OF t] show ?thesis
        by (simp add: add_example_def spec_example_def string_field_present)
    next
      case (Some x)
      with t True present_nonempty [OF t] present_nonempty [OF Some] show ?thesis
        by (simp add: add_example_def spec_example_def string_field_present)
    qed
  qed
qed

lemma foldl_add_example:
  "foldl add_example items es = items @ concat (map spec_example es)"
  by (induction es arbitrary: items) (simp_all add: add_example_spec)

lemma header_spec:
  "Element (js ''ai-explanation-render-header'')
     ([div_text (js ''ai-explanation-render-title'')
         (if length (string_field data (js ''title'')) > 0 then string_field data (js ''title'')
          else if length (string_field data (js ''word'')) > 0 then string_field data (js ''word'')
          else js ''AI'')] @
      (if length (string_field data (js ''word'')) > 0
       then [div_text (js ''ai-explanation-render-badge'') (string_field data (js ''word''))] else [])) =
   spec_header data"
proof -
  have n: "string_field data k = []" if "present (get_prop data k) = None" for k
    using that by (simp add: string_field_present)
  have p: "string_field data k = v \<and> v \<noteq> []" if "present (get_prop data k) = Some v" for k v
    using that present_nonempty [OF that] by (simp add: string_field_present)
  show ?thesis
  proof (cases "present (get_prop data (js ''title''))")
    case None
    note t = None
    show ?thesis
    proof (cases "present (get_prop data (js ''word''))")
      case None
      with t n [OF t] n [OF None] show ?thesis by (simp add: spec_header_def)
    next
      case (Some w)
      with t n [OF t] p [OF Some] show ?thesis by (simp add: spec_header_def)
    qed
  next
    case (Some tv)
    note t = Some
    show ?thesis
    proof (cases "present (get_prop data (js ''word''))")
      case None
      with t p [OF t] n [OF None] show ?thesis by (simp add: spec_header_def)
    next
      case (Some w)
      with t p [OF t] p [OF Some] show ?thesis by (simp add: spec_header_def)
    qed
  qed
qed

lemma render_children_spec: "render_children data = spec_render data"
proof -
  have ex: "array_field data (js ''examples'') = [] \<Longrightarrow> spec_examples (get_prop data (js ''examples'')) = []"
    by (auto simp: array_field_def spec_examples_def split: option.splits json.splits)
  have ex2: "array_field data (js ''examples'') \<noteq> [] \<Longrightarrow>
      spec_examples (get_prop data (js ''examples'')) =
        [Element (js ''ai-explanation-section'')
           [div_text (js ''ai-explanation-section-title'') (js ''Examples''),
            Element (js ''ai-explanation-examples'')
              (concat (map spec_example (array_field data (js ''examples''))))]]"
    by (auto simp: array_field_def spec_examples_def split: option.splits json.splits)
  have unf: "render_children data =
      (if length (array_field data (js ''examples'')) > 0 then
         ((([] @ [spec_header data]) @ spec_section (js ''Meaning'') (get_prop data (js ''meaning''))) @
           spec_section (js ''In context'') (get_prop data (js ''meaning_in_context''))) @
           spec_section (js ''Usage'') (get_prop data (js ''usage'')) @
         [Element (js ''ai-explanation-section'')
            [div_text (js ''ai-explanation-section-title'') (js ''Examples''),
             Element (js ''ai-explanation-examples'')
               (foldl add_example [] (array_field data (js ''examples'')))]]
       else
         ((([] @ [spec_header data]) @ spec_section (js ''Meaning'') (get_prop data (js ''meaning''))) @
           spec_section (js ''In context'') (get_prop data (js ''meaning_in_context''))) @
           spec_section (js ''Usage'') (get_prop data (js ''usage'')))"
    by (simp only: render_children_def Let_def addSection_spec header_spec) simp
  show ?thesis
  proof (cases "array_field data (js ''examples'') = []")
    case True
    then show ?thesis
      by (simp add: unf spec_render_def ex)
  next
    case False
    then show ?thesis
      by (simp add: unf spec_render_def ex2 foldl_add_example)
  qed
qed

section \<open>Rendering\<close>

text \<open>
  Claim C8. For a parsed object, \<^verbatim>\<open>_setContentRendered\<close> replaces the children of the
  content element, whatever they were, by the tree the specification describes
  (\<open>spec_render\<close>): the header, the optional badge, the sections that are present, and the
  section of the examples when the list is not empty. A field of the wrong type counts
  as absent; there is no error branch. Without a content element nothing changes.
\<close>

theorem render_matches_specification:
  "(content s = None \<longrightarrow> setContentRendered v s = s) \<and>
   (is_object v \<and> content s = Some old \<longrightarrow>
      setContentRendered v s = s\<lparr>content := Some (spec_render v)\<rparr>)"
  by (simp add: setContentRendered_def render_children_spec)

text \<open>
  The witness renders an object whose word is a number, whose meaning is blank and
  whose examples are an object with a text, a number and an object with an empty
  explanation: the title alone in the header, the usage, and one example entry.
\<close>

theorem render_matches_specification_witness:
  \<open>tryParseJson (js ''{"title":"T","word":5,"meaning":" ","usage":"u","examples":[{"text":"t"},7,{"explain":""}]}'') =
     JObj [(js ''title'', JStr (js ''T'')), (js ''word'', JNum (js ''5'')), (js ''meaning'', JStr (js '' '')),
           (js ''usage'', JStr (js ''u'')),
           (js ''examples'', JArr [JObj [(js ''text'', JStr (js ''t''))], JNum (js ''7''),
                                   JObj [(js ''explain'', JStr [])]])] \<and>
   is_object (JObj [(js ''title'', JStr (js ''T'')), (js ''word'', JNum (js ''5'')), (js ''meaning'', JStr (js '' '')),
           (js ''usage'', JStr (js ''u'')),
           (js ''examples'', JArr [JObj [(js ''text'', JStr (js ''t''))], JNum (js ''7''),
                                   JObj [(js ''explain'', JStr [])]])]) \<and>
   content (prepared (Some False) (Some [TextNode (js ''old'')]) (Some ([], True)) (Some True)) =
     Some [TextNode (js ''old'')] \<and>
   setContentRendered
     (JObj [(js ''title'', JStr (js ''T'')), (js ''word'', JNum (js ''5'')), (js ''meaning'', JStr (js '' '')),
           (js ''usage'', JStr (js ''u'')),
           (js ''examples'', JArr [JObj [(js ''text'', JStr (js ''t''))], JNum (js ''7''),
                                   JObj [(js ''explain'', JStr [])]])])
     (prepared (Some False) (Some [TextNode (js ''old'')]) (Some ([], True)) (Some True)) =
   (prepared (Some False) (Some [TextNode (js ''old'')]) (Some ([], True)) (Some True))
     \<lparr>content := Some
        [Element (js ''ai-explanation-render-header'')
           [Element (js ''ai-explanation-render-title'') [TextNode (js ''T'')]],
         Element (js ''ai-explanation-section'')
           [Element (js ''ai-explanation-section-title'') [TextNode (js ''Usage'')],
            Element (js ''ai-explanation-section-body'') [TextNode (js ''u'')]],
         Element (js ''ai-explanation-section'')
           [Element (js ''ai-explanation-section-title'') [TextNode (js ''Examples'')],
            Element (js ''ai-explanation-examples'')
              [Element (js ''ai-explanation-example'')
                 [Element (js ''ai-explanation-example-text'') [TextNode (js ''t'')]]]]]\<rparr>\<close>
proof -
  let ?v = \<open>JObj [(js ''title'', JStr (js ''T'')), (js ''word'', JNum (js ''5'')), (js ''meaning'', JStr (js '' '')),
           (js ''usage'', JStr (js ''u'')),
           (js ''examples'', JArr [JObj [(js ''text'', JStr (js ''t''))], JNum (js ''7''),
                                   JObj [(js ''explain'', JStr [])]])]\<close>
  let ?s = \<open>prepared (Some False) (Some [TextNode (js ''old'')]) (Some ([], True)) (Some True)\<close>
  have tp: \<open>tryParseJson (js ''{"title":"T","word":5,"meaning":" ","usage":"u","examples":[{"text":"t"},7,{"explain":""}]}'') = ?v\<close>
    by (simp add: tryParseJson_def string_eval json_eval)
  have ob: "is_object ?v" by simp
  have ct: "content ?s = Some [TextNode (js ''old'')]" by (simp add: prepared_def)
  have sr: "spec_render ?v =
        [Element (js ''ai-explanation-render-header'')
           [Element (js ''ai-explanation-render-title'') [TextNode (js ''T'')]],
         Element (js ''ai-explanation-section'')
           [Element (js ''ai-explanation-section-title'') [TextNode (js ''Usage'')],
            Element (js ''ai-explanation-section-body'') [TextNode (js ''u'')]],
         Element (js ''ai-explanation-section'')
           [Element (js ''ai-explanation-section-title'') [TextNode (js ''Examples'')],
            Element (js ''ai-explanation-examples'')
              [Element (js ''ai-explanation-example'')
                 [Element (js ''ai-explanation-example-text'') [TextNode (js ''t'')]]]]]"
    by (simp add: spec_render_def spec_header_def spec_section_def spec_examples_def spec_example_def
        present_def div_text_def text_children_def js_def isWhiteSpace_def)
  from render_matches_specification [of ?s ?v "[TextNode (js ''old'')]"] ob ct
  have "setContentRendered ?v ?s = ?s\<lparr>content := Some (spec_render ?v)\<rparr>" by blast
  with tp ob ct sr show ?thesis by simp
qed

section \<open>Lemmas on the request token\<close>

lemma setters_requestId [simp]:
  "requestId (setVisible b s) = requestId s"
  "requestId (setButtonVisible b s) = requestId s"
  "requestId (setStatusText v s) = requestId s"
  "requestId (setContentText v s) = requestId s"
  "requestId (setContentRendered j s) = requestId s"
  by (simp_all add: setVisible_def setButtonVisible_def setStatusText_def setContentText_def
      setContentRendered_def Let_def split: option.splits)

lemma setters_settings [simp]:
  "settings (setVisible b s) = settings s"
  "settings (setButtonVisible b s) = settings s"
  "settings (setStatusText v s) = settings s"
  "settings (setContentText v s) = settings s"
  "settings (setContentRendered j s) = settings s"
  by (simp_all add: setVisible_def setButtonVisible_def setStatusText_def setContentText_def
      setContentRendered_def Let_def split: option.splits)

lemma stale_noops:
  assumes "rid \<noteq> requestId s"
  shows "explain_onText rid partial s = s"
    and "explain_resolved rid resultText s = s"
    and "explain_catch rid e s = s"
    and "explain_with_settings rid word ctx st s = (s, None)"
    and "lookup_resolved rid query st state s = (s, None)"
  using assms
  by (simp_all add: explain_onText_def explain_resolved_def explain_catch_def
      explain_with_settings_def lookup_resolved_def)

lemma explain_catch_requestId [simp]: "requestId (explain_catch rid e s) = requestId s"
  by (simp add: explain_catch_def Let_def)

lemma explain_with_settings_token:
  "explain_with_settings rid word ctx st s = (s', aw) \<Longrightarrow>
     requestId s' = requestId s \<and> (\<forall>w. aw = Some w \<longrightarrow> token w = rid \<and> rid = requestId s)"
  by (auto simp: explain_with_settings_def Let_def split: if_splits)

lemma next_token_less: "n < 9007199254740992 \<Longrightarrow> next_token n = n + 1"
  by (simp add: next_token_def)

lemma next_token_ge: "n \<le> next_token n"
  by (simp add: next_token_def)

lemma next_token_below: "next_token n < 9007199254740992 \<Longrightarrow> n < 9007199254740992 \<and> next_token n = n + 1"
  by (simp add: next_token_def split: if_splits)

lemma requestExplain_token:
  "requestExplain word ctx s = (s', aw) \<Longrightarrow>
     requestId s' = next_token (requestId s) \<and>
     (\<forall>w. aw = Some w \<longrightarrow> token w = next_token (requestId s))"
  by (auto simp: requestExplain_def Let_def explain_with_settings_def split: option.splits if_splits)

lemma onContentUpdateStart_token:
  "onContentUpdateStart query state s = (s', aw) \<Longrightarrow>
     requestId s' = next_token (requestId s) \<and>
     (\<forall>w. aw = Some w \<longrightarrow> token w = next_token (requestId s))"
  by (auto simp: onContentUpdateStart_def Let_def split: if_splits)

lemma onButtonClick_token:
  "onButtonClick state s = (s', aw) \<Longrightarrow>
     (s' = s \<and> aw = None) \<or>
     (requestId s' = next_token (requestId s) \<and>
      (\<forall>w. aw = Some w \<longrightarrow> token w = next_token (requestId s)))"
  by (auto simp: onButtonClick_def split: if_splits option.splits prod.splits
      dest: requestExplain_token)

lemma lookup_resolved_token:
  "lookup_resolved rid query st state s = (s', aw) \<Longrightarrow>
     (requestId s' = requestId s \<and> aw = None) \<or>
     (requestId s' = next_token (requestId s) \<and>
      (\<forall>w. aw = Some w \<longrightarrow> token w = next_token (requestId s)))"
proof (cases "rid = requestId s")
  case False
  assume "lookup_resolved rid query st state s = (s', aw)"
  with False show ?thesis by (simp add: lookup_resolved_def)
next
  case True
  assume h: "lookup_resolved rid query st state s = (s', aw)"
  show ?thesis
  proof (cases "mode st = js ''manual''")
    case m: True
    with h True show ?thesis by (auto simp: lookup_resolved_def Let_def)
  next
    case m: False
    let ?w = "case query of Some q \<Rightarrow> q | None \<Rightarrow> []"
    let ?s2 = "setButtonVisible False (setVisible True
        (s\<lparr>settings := Some st, pendingInput := Some (?w, getSentenceText state)\<rparr>))"
    from h True m have "requestExplain ?w (getSentenceText state) ?s2 = (s', aw)"
      by (simp add: lookup_resolved_def Let_def)
    from requestExplain_token [OF this] show ?thesis by simp
  qed
qed

lemma lookup_rejected_requestId [simp]: "requestId (lookup_rejected rid e s) = requestId s"
  by (simp add: lookup_rejected_def Let_def)

lemma onContentClear_requestId [simp]: "requestId (onContentClear s) = next_token (requestId s)"
  by (simp add: onContentClear_def)

lemma explain_onText_requestId [simp]: "requestId (explain_onText rid p s) = requestId s"
  by (simp add: explain_onText_def Let_def)

lemma explain_resolved_requestId [simp]: "requestId (explain_resolved rid t s) = requestId s"
  by (simp add: explain_resolved_def Let_def)

lemma set_remove_nth: "set (remove_nth i xs) \<subseteq> set xs"
  by (auto simp: remove_nth_def dest: in_set_takeD in_set_dropD)

lemma map_remove_nth: "map f (remove_nth i xs) = remove_nth i (map f xs)"
  by (simp add: remove_nth_def take_map drop_map)

lemma distinct_remove_nth: "distinct xs \<Longrightarrow> distinct (remove_nth i xs)"
proof -
  assume d: "distinct xs"
  have "xs = take i xs @ drop i xs" by simp
  moreover have "set (drop (Suc i) xs) \<subseteq> set (drop i xs)"
    by (metis Suc_n_not_le_n nat_le_linear set_drop_subset_set_drop)
  ultimately show ?thesis
    using d unfolding remove_nth_def
    by (metis append_take_drop_id distinct_append distinct_drop distinct_take disjoint_iff subsetD)
qed

lemma nth_not_in_remove_nth:
  assumes "distinct xs" and "i < length xs"
  shows "xs ! i \<notin> set (remove_nth i xs)"
proof -
  have xs: "xs = take i xs @ xs ! i # drop (Suc i) xs"
    using assms(2) by (simp add: id_take_nth_drop)
  with assms(1) have "distinct (take i xs @ xs ! i # drop (Suc i) xs)" by simp
  then show ?thesis by (auto simp: remove_nth_def)
qed

lemma tokens_ok_spawn_fresh:
  assumes ok: "tokens_ok sys" and sub: "set ws \<subseteq> set (waiting sys)"
    and dist: "distinct (map token (waiting sys)) \<Longrightarrow> distinct (map token ws)"
    and rid: "requestId s' = next_token (requestId (instance_state sys))"
    and tw: "\<forall>w. aw = Some w \<longrightarrow> token w = next_token (requestId (instance_state sys))"
  shows "tokens_ok (spawn ws (s', aw))"
proof -
  let ?n = "requestId (instance_state sys)"
  from ok sub have le: "\<forall>w\<in>set ws. token w \<le> ?n"
    by (auto simp: tokens_ok_def list_all_iff)
  have ge: "?n \<le> next_token ?n" by (rule next_token_ge)
  have bound: "list_all (\<lambda>w. token w \<le> requestId s') (ws @ (case aw of None \<Rightarrow> [] | Some w \<Rightarrow> [w]))"
    using le ge rid tw by (cases aw) (auto simp: list_all_iff)
  have distinct': "distinct (map token (ws @ (case aw of None \<Rightarrow> [] | Some w \<Rightarrow> [w])))"
    if below: "requestId s' < 9007199254740992"
  proof -
    from below rid next_token_below [of ?n]
    have n: "?n < 9007199254740992" and nt: "next_token ?n = ?n + 1" by simp_all
    from ok n have "distinct (map token (waiting sys))" by (simp add: tokens_ok_def)
    then have d: "distinct (map token ws)" by (rule dist)
    show ?thesis
    proof (cases aw)
      case None
      with d show ?thesis by simp
    next
      case (Some w)
      with tw nt have "token w = ?n + 1" by simp
      with le have "token w \<notin> token ` set ws" by auto
      with Some d show ?thesis by simp
    qed
  qed
  from bound distinct' show ?thesis by (simp add: tokens_ok_def spawn_def)
qed

lemma tokens_ok_same:
  assumes "tokens_ok sys" and "set ws \<subseteq> set (waiting sys)"
    and "distinct (map token (waiting sys)) \<Longrightarrow> distinct (map token ws)"
    and "requestId (instance_state sys) \<le> requestId s'"
  shows "tokens_ok \<lparr>instance_state = s', waiting = ws\<rparr>"
  using assms by (fastforce simp: tokens_ok_def list_all_iff)

lemma tokens_ok_update:
  assumes "tokens_ok sys" and "requestId (instance_state sys) \<le> requestId s'"
  shows "tokens_ok (sys\<lparr>instance_state := s'\<rparr>)"
  using assms by (fastforce simp: tokens_ok_def list_all_iff)

lemma nth_waiting_Some:
  "nth_waiting sys i = Some w \<Longrightarrow> i < length (waiting sys) \<and> waiting sys ! i = w"
  by (auto simp: nth_waiting_def split: if_splits)

lemma tokens_ok_replace:
  assumes ok: "tokens_ok sys" and nw: "nth_waiting sys i = Some w"
    and rid: "requestId s' = requestId (instance_state sys)"
    and tw: "\<forall>w'. aw = Some w' \<longrightarrow> token w' = token w"
  shows "tokens_ok (spawn (remove_nth i (waiting sys)) (s', aw))"
proof -
  let ?ws = "remove_nth i (waiting sys)"
  from nth_waiting_Some [OF nw] have i: "i < length (waiting sys)" and w: "waiting sys ! i = w"
    by blast+
  from ok have le: "\<forall>x\<in>set (waiting sys). token x \<le> requestId (instance_state sys)"
    by (auto simp: tokens_ok_def list_all_iff)
  have sub: "set ?ws \<subseteq> set (waiting sys)" by (rule set_remove_nth)
  have wle: "token w \<le> requestId (instance_state sys)"
    using le i w by (metis nth_mem)
  have bound: "list_all (\<lambda>w. token w \<le> requestId s') (?ws @ (case aw of None \<Rightarrow> [] | Some w \<Rightarrow> [w]))"
    using le sub wle rid tw by (cases aw) (auto simp: list_all_iff)
  have distinct': "distinct (map token (?ws @ (case aw of None \<Rightarrow> [] | Some w \<Rightarrow> [w])))"
    if below: "requestId s' < 9007199254740992"
  proof -
    from ok below rid have d: "distinct (map token (waiting sys))" by (simp add: tokens_ok_def)
    have d': "distinct (map token ?ws)"
      using d by (simp add: map_remove_nth distinct_remove_nth)
    have "map token (waiting sys) ! i \<notin> set (remove_nth i (map token (waiting sys)))"
      using d i by (intro nth_not_in_remove_nth) simp_all
    then have fresh: "token w \<notin> token ` set ?ws"
      using i w by (simp add: map_remove_nth [symmetric])
    show ?thesis
    proof (cases aw)
      case None
      with d' show ?thesis by simp
    next
      case (Some w')
      with tw have "token w' = token w" by simp
      with Some d' fresh show ?thesis by simp
    qed
  qed
  from bound distinct' show ?thesis by (simp add: tokens_ok_def spawn_def)
qed

lemma dispatch_tokens_ok:
  assumes ok: "tokens_ok sys"
  shows "tokens_ok (dispatch sys ev)"
proof -
  obtain state ev' where ev: "ev = (state, ev')" by (cases ev)
  have sub: "set (remove_nth i (waiting sys)) \<subseteq> set (waiting sys)" for i
    by (rule set_remove_nth)
  have dr: "distinct (map token (waiting sys)) \<Longrightarrow> distinct (map token (remove_nth i (waiting sys)))" for i
    by (simp add: map_remove_nth distinct_remove_nth)
  have same: "tokens_ok \<lparr>instance_state = s', waiting = remove_nth i (waiting sys)\<rparr>"
    if "requestId s' = requestId (instance_state sys)" for s' i
    using ok sub dr that by (intro tokens_ok_same [of sys]) simp_all
  show ?thesis
  proof (cases ev')
    case ContentClear
    with ev ok show ?thesis by (simp add: tokens_ok_update next_token_ge)
  next
    case (ContentUpdateStart query)
    obtain s' aw where h: "onContentUpdateStart query state (instance_state sys) = (s', aw)"
      by (cases "onContentUpdateStart query state (instance_state sys)")
    from onContentUpdateStart_token [OF h] ok
    have "tokens_ok (spawn (waiting sys) (s', aw))"
      by (intro tokens_ok_spawn_fresh [of sys]) auto
    with ev ContentUpdateStart h show ?thesis by simp
  next
    case ButtonClick
    obtain s' aw where h: "onButtonClick state (instance_state sys) = (s', aw)"
      by (cases "onButtonClick state (instance_state sys)")
    from onButtonClick_token [OF h] have "tokens_ok (spawn (waiting sys) (s', aw))"
    proof
      assume "s' = instance_state sys \<and> aw = None"
      with ok show ?thesis by (simp add: spawn_def tokens_ok_def)
    next
      assume "requestId s' = next_token (requestId (instance_state sys)) \<and>
        (\<forall>w. aw = Some w \<longrightarrow> token w = next_token (requestId (instance_state sys)))"
      with ok show ?thesis by (intro tokens_ok_spawn_fresh [of sys]) auto
    qed
    with ev ButtonClick h show ?thesis by simp
  next
    case (SettingsResolved i st)
    show ?thesis
    proof (cases "nth_waiting sys i")
      case None
      with ev SettingsResolved ok show ?thesis by simp
    next
      case (Some w)
      show ?thesis
      proof (cases w)
        case (AwaitSettingsForLookup rid query)
        obtain s' aw where h: "lookup_resolved rid query st state (instance_state sys) = (s', aw)"
          by (cases "lookup_resolved rid query st state (instance_state sys)")
        from lookup_resolved_token [OF h]
        have "tokens_ok (spawn (remove_nth i (waiting sys)) (s', aw))"
        proof
          assume "requestId s' = requestId (instance_state sys) \<and> aw = None"
          with same [of s' i] show ?thesis by (simp add: spawn_def)
        next
          assume "requestId s' = next_token (requestId (instance_state sys)) \<and>
            (\<forall>w. aw = Some w \<longrightarrow> token w = next_token (requestId (instance_state sys)))"
          with ok sub dr show ?thesis by (intro tokens_ok_spawn_fresh [of sys]) auto
        qed
        with ev SettingsResolved Some AwaitSettingsForLookup h show ?thesis by simp
      next
        case (AwaitSettingsForExplain rid word ctx)
        obtain s' aw where h: "explain_with_settings rid word ctx st (instance_state sys) = (s', aw)"
          by (cases "explain_with_settings rid word ctx st (instance_state sys)")
        from explain_with_settings_token [OF h] AwaitSettingsForExplain
        have "requestId s' = requestId (instance_state sys)" "\<forall>w'. aw = Some w' \<longrightarrow> token w' = token w"
          by auto
        from tokens_ok_replace [OF ok Some this]
        show ?thesis using ev SettingsResolved Some AwaitSettingsForExplain h by simp
      next
        case (AwaitCompletion rid req)
        with ev SettingsResolved Some ok show ?thesis by simp
      qed
    qed
  next
    case (SettingsRejected i e)
    show ?thesis
    proof (cases "nth_waiting sys i")
      case None
      with ev SettingsRejected ok show ?thesis by simp
    next
      case (Some w)
      with ev SettingsRejected ok show ?thesis
        by (cases w) (simp_all add: same)
    qed
  next
    case (PartialText i partial)
    show ?thesis
    proof (cases "nth_waiting sys i")
      case None
      with ev PartialText ok show ?thesis by simp
    next
      case (Some w)
      with ev PartialText ok show ?thesis
        by (cases w) (auto intro!: tokens_ok_update)
    qed
  next
    case (CompletionResolved i resultText)
    show ?thesis
    proof (cases "nth_waiting sys i")
      case None
      with ev CompletionResolved ok show ?thesis by simp
    next
      case (Some w)
      with ev CompletionResolved ok show ?thesis
        by (cases w) (simp_all add: same)
    qed
  next
    case (CompletionRejected i e)
    show ?thesis
    proof (cases "nth_waiting sys i")
      case None
      with ev CompletionRejected ok show ?thesis by simp
    next
      case (Some w)
      with ev CompletionRejected ok show ?thesis
        by (cases w) (simp_all add: same)
    qed
  qed
qed

lemma foldl_dispatch_tokens_ok:
  "tokens_ok sys \<Longrightarrow> tokens_ok (foldl dispatch sys evs)"
  by (induction evs arbitrary: sys) (simp_all add: dispatch_tokens_ok)

text \<open>
  In every state the event loop reaches, no waiting continuation has captured a token
  above the current one, and below \<open>2^53\<close> the captured tokens are pairwise distinct, so
  at most one waiting continuation holds the current token.
\<close>

lemma run_tokens_ok: "tokens_ok (run s0 evs)"
  unfolding run_def by (rule foldl_dispatch_tokens_ok) (simp add: tokens_ok_def)

lemma distinct_filter_le_one:
  "distinct (map f xs) \<Longrightarrow> length (filter (\<lambda>x. f x = v) xs) \<le> 1"
proof (induction xs)
  case Nil
  then show ?case by simp
next
  case (Cons x xs)
  show ?case
  proof (cases "f x = v")
    case True
    with Cons.prems have "\<forall>y\<in>set xs. f y \<noteq> v" by (metis distinct.simps(2) image_eqI list.simps(9) set_map)
    then have "filter (\<lambda>x. f x = v) xs = []" by (simp add: filter_empty_conv)
    with True show ?thesis by simp
  next
    case False
    with Cons show ?thesis by simp
  qed
qed

lemma run_one_current:
  assumes "requestId (instance_state (run s0 evs)) < 9007199254740992"
  shows "length (filter (\<lambda>w. token w = requestId (instance_state (run s0 evs)))
           (waiting (run s0 evs))) \<le> 1"
  using run_tokens_ok [of s0 evs] assms
    distinct_filter_le_one [of token "waiting (run s0 evs)"]
  by (simp add: tokens_ok_def)

text \<open>
  Below \<open>2^53\<close> a run of \<^verbatim>\<open>_requestExplain\<close> leaves the token one higher, and every
  continuation that checks its token and has captured one up to the old token is then
  without effect. Both callers, the continuation of a lookup in automatic mode and an
  eligible click on the button, go through \<^verbatim>\<open>_requestExplain\<close>.
\<close>

lemma requestExplain_supersedes_guarded:
  assumes below: "requestId s < 9007199254740992" and old: "rid \<le> requestId s"
  shows "explain_onText rid partial (fst (requestExplain word ctx s)) = fst (requestExplain word ctx s)"
    and "explain_resolved rid resultText (fst (requestExplain word ctx s)) = fst (requestExplain word ctx s)"
    and "explain_catch rid e (fst (requestExplain word ctx s)) = fst (requestExplain word ctx s)"
    and "explain_with_settings rid word' ctx' st' (fst (requestExplain word ctx s)) =
           (fst (requestExplain word ctx s), None)"
    and "lookup_resolved rid query st state (fst (requestExplain word ctx s)) =
           (fst (requestExplain word ctx s), None)"
proof -
  obtain s1 aw where re: "requestExplain word ctx s = (s1, aw)" by (cases "requestExplain word ctx s")
  from requestExplain_token [OF re] below have "requestId s1 = requestId s + 1"
    by (simp add: next_token_less)
  with old have "rid \<noteq> requestId s1" by simp
  with re show "explain_onText rid partial (fst (requestExplain word ctx s)) = fst (requestExplain word ctx s)"
    and "explain_resolved rid resultText (fst (requestExplain word ctx s)) = fst (requestExplain word ctx s)"
    and "explain_catch rid e (fst (requestExplain word ctx s)) = fst (requestExplain word ctx s)"
    and "explain_with_settings rid word' ctx' st' (fst (requestExplain word ctx s)) =
           (fst (requestExplain word ctx s), None)"
    and "lookup_resolved rid query st state (fst (requestExplain word ctx s)) =
           (fst (requestExplain word ctx s), None)"
    by (simp_all add: stale_noops)
qed

lemma onButtonClick_requestExplain:
  "isShiftLookup state \<Longrightarrow> pendingInput s = Some (word, ctx) \<Longrightarrow>
     onButtonClick state s = requestExplain word ctx s"
  by (simp add: onButtonClick_def)

lemma lookup_resolved_requestExplain:
  assumes "rid = requestId s" and "mode st \<noteq> js ''manual''"
  shows "lookup_resolved rid query st state s =
           requestExplain (case query of Some q \<Rightarrow> q | None \<Rightarrow> []) (getSentenceText state)
             (setButtonVisible False (setVisible True
                (s\<lparr>settings := Some st,
                   pendingInput := Some (case query of Some q \<Rightarrow> q | None \<Rightarrow> [], getSentenceText state)\<rparr>)))"
  using assms by (simp add: lookup_resolved_def Let_def)

section \<open>Explain requests and the token\<close>


section \<open>Stale continuations\<close>

text \<open>
  Claim C1 says that no continuation writes anything once its token is stale, the
  error branch of the settings fetch included. The guarded continuations keep this
  (lemma \<open>stale_noops\<close>), but the \<^verbatim>\<open>catch\<close> clause of \<^verbatim>\<open>_onContentUpdateStart\<close> has
  no guard. In the run below a first lookup (token 1) waits for its settings, a second
  lookup (token 2) gets manual settings and shows the button, and then the settings
  fetch of the first lookup fails: although its token is stale, the continuation clears
  the cached settings, hides the button, replaces the status text and logs the error.
\<close>

theorem stale_settings_rejection_writes:
  "nth_waiting (run all_elements
     [(shift_lookup, ContentUpdateStart (Some (js ''one''))),
      (shift_lookup, ContentUpdateStart (Some (js ''two''))),
      (shift_lookup, SettingsResolved 1 manual_settings)]) 0 =
     Some (AwaitSettingsForLookup 1 (Some (js ''one''))) \<and>
   instance_state (run all_elements
     [(shift_lookup, ContentUpdateStart (Some (js ''one''))),
      (shift_lookup, ContentUpdateStart (Some (js ''two''))),
      (shift_lookup, SettingsResolved 1 manual_settings)]) =
     \<lparr>root = Some False, content = Some [],
      status_node = Some (js ''Click AI to explain.'', False), button = Some False,
      requestId = 2, settings = Some manual_settings,
      pendingInput = Some (js ''two'', js ''a sentence''), logged = []\<rparr> \<and>
   instance_state (run all_elements
     [(shift_lookup, ContentUpdateStart (Some (js ''one''))),
      (shift_lookup, ContentUpdateStart (Some (js ''two''))),
      (shift_lookup, SettingsResolved 1 manual_settings),
      (shift_lookup, SettingsRejected 0 (Error (js ''backend unavailable'')))]) =
     \<lparr>root = Some False, content = Some [],
      status_node = Some (js ''AI settings unavailable.'', False), button = Some True,
      requestId = 2, settings = None,
      pendingInput = Some (js ''two'', js ''a sentence''), logged = [Error (js ''backend unavailable'')]\<rparr>"
  by (simp add: display_eval string_eval)

section \<open>Lemmas on the JSON recogniser\<close>

lemma obj_rooted_Err [simp]: "obj_rooted (LErr, st)"
  by (simp add: obj_rooted_def)

lemma obj_rooted_stack:
  "st \<noteq> [] \<Longrightarrow> is_obj_frame (last st) \<Longrightarrow> \<not> is_done l \<Longrightarrow> obj_rooted (l, st)"
  "st \<noteq> [] \<Longrightarrow> is_obj_frame (last st) \<Longrightarrow> \<not> is_done l \<Longrightarrow> obj_rooted (l, f # st)"
  by (auto simp: obj_rooted_def)

lemma complete_rooted:
  assumes "st \<noteq> []" and "is_obj_frame (last st)"
  shows "obj_rooted (complete v st)"
proof (cases st)
  case Nil
  with assms show ?thesis by simp
next
  case (Cons f st')
  with assms show ?thesis
    by (cases f; cases "st' = []") (auto simp: obj_rooted_def)
qed

lemma close_object_rooted:
  assumes "st \<noteq> []" and "is_obj_frame (last st)"
  shows "obj_rooted (close_object st)"
proof (cases st)
  case Nil
  with assms show ?thesis by simp
next
  case (Cons f st')
  show ?thesis
  proof (cases "st' = []")
    case True
    with Cons assms show ?thesis by (cases f) (auto simp: close_object_def obj_rooted_def)
  next
    case False
    with Cons assms complete_rooted [of st'] show ?thesis
      by (cases f) (auto simp: close_object_def)
  qed
qed

lemma close_array_rooted:
  assumes "st \<noteq> []" and "is_obj_frame (last st)"
  shows "obj_rooted (close_array st)"
proof (cases st)
  case Nil
  with assms show ?thesis by simp
next
  case (Cons f st')
  show ?thesis
  proof (cases "st' = []")
    case True
    with Cons assms show ?thesis by (cases f) (auto simp: close_array_def obj_rooted_def)
  next
    case False
    with Cons assms complete_rooted [of st'] show ?thesis
      by (cases f) (auto simp: close_array_def)
  qed
qed

lemma end_string_rooted:
  assumes "st \<noteq> []" and "is_obj_frame (last st)"
  shows "obj_rooted (end_string k acc st)"
proof (cases k)
  case False
  with assms show ?thesis by (simp add: end_string_def complete_rooted)
next
  case True
  show ?thesis
  proof (cases st)
    case Nil
    with assms show ?thesis by simp
  next
    case (Cons f st')
    with True assms show ?thesis
      by (cases f; cases "st' = []") (auto simp: end_string_def obj_rooted_def)
  qed
qed

lemma start_value_rooted:
  assumes "st \<noteq> []" and "is_obj_frame (last st)"
  shows "obj_rooted (start_value c st)"
  using assms by (auto simp: start_value_def obj_rooted_stack)

lemma step_plain_rooted_stack:
  assumes "st \<noteq> []" and "is_obj_frame (last st)" and "\<not> is_done l"
  shows "obj_rooted (step_plain (l, st) c)"
proof (cases l)
  case LAfter
  from assms obtain f st' where "st = f # st'" by (cases st) auto
  with LAfter assms show ?thesis
    by (cases f) (auto simp: close_object_rooted close_array_rooted obj_rooted_stack)
next
  case (LEsc k acc)
  with assms show ?thesis by (auto simp: obj_rooted_stack split: option.splits)
next
  case (LUni k acc n v)
  with assms show ?thesis by (auto simp: obj_rooted_stack split: option.splits)
next
  case (LLit remaining v)
  with assms show ?thesis
    by (auto simp: complete_rooted obj_rooted_stack split: list.splits)
qed (use assms in \<open>auto simp: start_value_rooted close_array_rooted close_object_rooted
       end_string_rooted obj_rooted_stack\<close>)

lemma step_rooted: "obj_rooted ps \<Longrightarrow> obj_rooted (step ps c)"
proof -
  assume r: "obj_rooted ps"
  obtain l st where ps: "ps = (l, st)" by (cases ps)
  from r ps consider (stack) "st \<noteq> []" "is_obj_frame (last st)" "\<not> is_done l"
    | (done') kvs where "l = LDone (JObj kvs)" | (err) "l = LErr"
    by (auto simp: obj_rooted_def)
  then show ?thesis
  proof cases
    case stack
    show ?thesis
    proof (cases l)
      case (LNum ns lx)
      show ?thesis
      proof (cases "num_step ns c")
        case (Some ns')
        with ps LNum stack show ?thesis by (simp add: step_def obj_rooted_stack)
      next
        case None
        show ?thesis
        proof (cases "num_final ns")
          case False
          with ps LNum None show ?thesis by (simp add: step_def)
        next
          case True
          obtain l' st' where c: "complete (JNum lx) st = (l', st')" by (cases "complete (JNum lx) st")
          from complete_rooted [OF stack(1,2), of "JNum lx"] c have r': "obj_rooted (l', st')" by simp
          have ld: "l' \<noteq> LDone v" for v
            using c stack by (cases st; cases "hd st") auto
          from r' ld consider "st' \<noteq> []" "is_obj_frame (last st')" "\<not> is_done l'" | "l' = LErr"
            by (auto simp: obj_rooted_def)
          then have "obj_rooted (step_plain (l', st') c)"
            by cases (simp_all add: step_plain_rooted_stack del: step_plain.simps, simp)
          with ps LNum None True c show ?thesis by (simp add: step_def)
        qed
      qed
    qed (use ps stack in \<open>simp_all add: step_def step_plain_rooted_stack del: step_plain.simps\<close>)
  next
    case done'
    with ps show ?thesis by (simp add: step_def obj_rooted_def)
  next
    case err
    with ps show ?thesis by (simp add: step_def)
  qed
qed

lemma foldl_step_rooted: "obj_rooted ps \<Longrightarrow> obj_rooted (foldl step ps xs)"
  by (induction xs arbitrary: ps) (simp_all add: step_rooted)

lemma finish_rooted:
  "obj_rooted ps \<Longrightarrow> finish ps = Some v \<Longrightarrow> (\<exists>kvs. v = JObj kvs) \<and> fst ps = LDone v"
  by (cases ps; cases "fst ps"; cases "snd ps") (auto simp: obj_rooted_def)

lemma foldl_step_Err: "fst (foldl step (LErr, st) xs) = LErr"
  by (induction xs arbitrary: st) (simp_all add: step_def)

lemma finish_Err: "fst ps = LErr \<Longrightarrow> finish ps = None"
  by (cases ps) simp

lemma foldl_step_Done:
  "finish (foldl step (LDone v, st) xs) = (if list_all isJsonWs xs then Some v else None)"
proof (induction xs arbitrary: st)
  case Nil
  then show ?case by simp
next
  case (Cons x xs)
  show ?case
  proof (cases "isJsonWs x")
    case True
    with Cons show ?thesis by (simp add: step_def)
  next
    case False
    then have "foldl step (LDone v, st) (x # xs) = foldl step (LErr, []) xs"
      by (simp add: step_def)
    with False foldl_step_Err [of "[]" xs] show ?thesis by (simp add: finish_Err)
  qed
qed

lemma step_LValue: "step (LValue, st) c = (if isJsonWs c then (LValue, st) else start_value c st)"
  by (simp add: step_def)

lemma step_LErr: "step (LErr, st) c = (LErr, [])"
  by (simp add: step_def)

lemma whitespace_not_value:
  "isWhiteSpace c \<Longrightarrow> \<not> isJsonWs c \<Longrightarrow> start_value c st = (LErr, [])"
  by (auto simp: isWhiteSpace_def isJsonWs_def start_value_def word_le_nat_alt)

lemma leading_whitespace:
  "list_all isWhiteSpace l \<Longrightarrow>
     foldl step (LValue, []) l = (LValue, []) \<or> fst (foldl step (LValue, []) l) = LErr"
proof (induction l rule: rev_induct)
  case Nil
  then show ?case by simp
next
  case (snoc c l)
  then have ih: "foldl step (LValue, []) l = (LValue, []) \<or> fst (foldl step (LValue, []) l) = LErr"
    and c: "isWhiteSpace c" by simp_all
  from ih show ?case
  proof
    assume a: "foldl step (LValue, []) l = (LValue, [])"
    show ?thesis
    proof (cases "isJsonWs c")
      case True
      with a show ?thesis by (simp add: step_LValue)
    next
      case False
      with a whitespace_not_value [OF c False, of "[]"] show ?thesis by (simp add: step_LValue)
    qed
  next
    assume "fst (foldl step (LValue, []) l) = LErr"
    then obtain st where "foldl step (LValue, []) l = (LErr, st)"
      by (cases "foldl step (LValue, []) l") simp
    then show ?thesis by (simp add: step_LErr)
  qed
qed

lemma trim_decompose:
  "p = takeWhile isWhiteSpace p @ trim p @
       rev (takeWhile isWhiteSpace (rev (dropWhile isWhiteSpace p)))"
proof -
  let ?q = "dropWhile isWhiteSpace p"
  have "rev ?q = takeWhile isWhiteSpace (rev ?q) @ dropWhile isWhiteSpace (rev ?q)" by simp
  then have "rev (rev ?q) = rev (takeWhile isWhiteSpace (rev ?q) @ dropWhile isWhiteSpace (rev ?q))"
    by simp
  then have "?q = rev (dropWhile isWhiteSpace (rev ?q)) @ rev (takeWhile isWhiteSpace (rev ?q))"
    by (simp only: rev_rev_ident rev_append)
  then have "?q = trim p @ rev (takeWhile isWhiteSpace (rev ?q))"
    by (simp add: trim_def trimEnd_def trimStart_def)
  moreover have "p = takeWhile isWhiteSpace p @ ?q" by simp
  ultimately show ?thesis by metis
qed

lemma tryParseJson_not_null:
  assumes "tryParseJson p \<noteq> JNull"
  shows "startsWith (trim p) (js ''{'') \<and> endsWith (trim p) (js ''}'') \<and>
         JSON_parse (trim p) = Some (tryParseJson p)"
  using assms by (auto simp: tryParseJson_def Let_def split: if_splits option.splits)

lemma startsWith_brace: "startsWith t (js ''{'') \<Longrightarrow> \<exists>t'. t = 0x7B # t'"
  by (cases t) (auto simp: startsWith_def js_def)

lemma parse_after_brace:
  assumes "JSON_parse (0x7B # t') = Some v"
  shows "(\<exists>kvs. v = JObj kvs) \<and> fst (foldl step (LValue, []) (0x7B # t')) = LDone v"
proof -
  have s1: "step (LValue, []) 0x7B = (LKeyOrClose, [FObj []])"
    by (simp add: step_def isJsonWs_def start_value_def)
  have "obj_rooted (LKeyOrClose, [FObj []])" by (simp add: obj_rooted_def)
  then have "obj_rooted (foldl step (LValue, []) (0x7B # t'))"
    using s1 by (simp add: foldl_step_rooted)
  with assms finish_rooted show ?thesis by (simp add: JSON_parse_def)
qed

text \<open>
  A prefix of a valid JSON text that \<open>tryParseJson\<close> accepts is the whole text up to
  trailing JSON whitespace, and its value is the value of the text, an object.
\<close>

lemma accepted_prefix:
  assumes valid: "JSON_parse (p @ r) = Some v" and acc: "tryParseJson p \<noteq> JNull"
  shows "tryParseJson p = v \<and> list_all isJsonWs r \<and> (\<exists>kvs. v = JObj kvs)"
proof -
  let ?l = "takeWhile isWhiteSpace p"
  let ?w = "rev (takeWhile isWhiteSpace (rev (dropWhile isWhiteSpace p)))"
  let ?v' = "tryParseJson p"
  from tryParseJson_not_null [OF acc]
  have st: "startsWith (trim p) (js ''{'')" and pt: "JSON_parse (trim p) = Some ?v'" by blast+
  from startsWith_brace [OF st] obtain t' where t: "trim p = 0x7B # t'" by blast
  from parse_after_brace pt t
  have obj: "\<exists>kvs. ?v' = JObj kvs" and dn: "fst (foldl step (LValue, []) (trim p)) = LDone ?v'"
    by auto
  then obtain st' where dn': "foldl step (LValue, []) (trim p) = (LDone ?v', st')"
    by (cases "foldl step (LValue, []) (trim p)") simp
  have dec: "p @ r = ?l @ trim p @ (?w @ r)"
    using trim_decompose [of p] by simp
  have lw: "list_all isWhiteSpace ?l"
    by (simp add: list_all_iff) (meson set_takeWhileD)
  from leading_whitespace [OF lw]
  have l0: "foldl step (LValue, []) ?l = (LValue, [])"
  proof
    assume "foldl step (LValue, []) ?l = (LValue, [])"
    then show ?thesis .
  next
    assume "fst (foldl step (LValue, []) ?l) = LErr"
    then obtain st0 where e: "foldl step (LValue, []) ?l = (LErr, st0)"
      by (cases "foldl step (LValue, []) ?l") simp
    have "JSON_parse (p @ r) = finish (foldl step (LErr, st0) (trim p @ (?w @ r)))"
      by (simp only: JSON_parse_def dec foldl_append e)
    with foldl_step_Err [of st0 "trim p @ (?w @ r)"] valid show ?thesis
      by (simp add: finish_Err)
  qed
  have "JSON_parse (p @ r) = finish (foldl step (LDone ?v', st') (?w @ r))"
    by (simp only: JSON_parse_def dec foldl_append l0 dn')
  with valid have "(if list_all isJsonWs (?w @ r) then Some ?v' else None) = Some v"
    by (simp only: foldl_step_Done)
  then have "?v' = v" and "list_all isJsonWs (?w @ r)"
    by (simp_all split: if_splits)
  with obj show ?thesis by simp
qed

lemma endsWith_brace: "endsWith s (js ''}'') \<Longrightarrow> s \<noteq> [] \<and> last s = 0x7D"
proof -
  assume "endsWith s (js ''}'')"
  then have l: "1 \<le> length s" and d: "drop (length s - 1) s = [0x7D]"
    by (simp_all add: endsWith_def js_def)
  from l have ne: "s \<noteq> []" by auto
  with d have "last s = 0x7D"
    by (metis append_butlast_last_id append_eq_conv_conj length_butlast list.inject)
  with ne show ?thesis by simp
qed

section \<open>JSON extraction\<close>

text \<open>
  Claim C3. \<open>tryParseJson\<close> is \<^verbatim>\<open>null\<close> when the trimmed text does not both start with an
  opening and end with a closing brace, and when \<^verbatim>\<open>JSON.parse\<close> rejects the trimmed
  text; it is the parsed value, an object, when the trimmed text passes both. For a
  valid JSON text \<open>s\<close>, a prefix that lacks more than trailing JSON whitespace yields
  \<^verbatim>\<open>null\<close>; so does every proper prefix of a valid text that ends with its closing
  brace. The function has no error result: the exception of the parser is its \<open>None\<close>,
  which the \<^verbatim>\<open>catch\<close> turns into \<^verbatim>\<open>null\<close>.
\<close>

theorem tryParseJson_correct:
  "(\<not> (startsWith (trim t) (js ''{'') \<and> endsWith (trim t) (js ''}'')) \<longrightarrow> tryParseJson t = JNull) \<and>
   (JSON_parse (trim t) = None \<longrightarrow> tryParseJson t = JNull) \<and>
   (startsWith (trim t) (js ''{'') \<and> endsWith (trim t) (js ''}'') \<and> JSON_parse (trim t) = Some v \<longrightarrow>
      tryParseJson t = v \<and> (\<exists>kvs. v = JObj kvs)) \<and>
   (JSON_parse (p @ r) = Some v' \<and> \<not> list_all isJsonWs r \<longrightarrow> tryParseJson p = JNull) \<and>
   (JSON_parse s = Some v' \<and> endsWith s (js ''}'') \<and> strict_prefix p s \<longrightarrow> tryParseJson p = JNull)"
proof -
  have p1: "\<not> (startsWith (trim t) (js ''{'') \<and> endsWith (trim t) (js ''}'')) \<longrightarrow> tryParseJson t = JNull"
    by (auto simp: tryParseJson_def Let_def)
  have p2: "JSON_parse (trim t) = None \<longrightarrow> tryParseJson t = JNull"
    by (simp add: tryParseJson_def Let_def)
  have p3: "startsWith (trim t) (js ''{'') \<and> endsWith (trim t) (js ''}'') \<and> JSON_parse (trim t) = Some v \<longrightarrow>
      tryParseJson t = v \<and> (\<exists>kvs. v = JObj kvs)"
  proof
    assume h: "startsWith (trim t) (js ''{'') \<and> endsWith (trim t) (js ''}'') \<and> JSON_parse (trim t) = Some v"
    then have tv: "tryParseJson t = v" by (simp add: tryParseJson_def Let_def)
    from h startsWith_brace obtain t' where "trim t = 0x7B # t'" by blast
    with h parse_after_brace have "\<exists>kvs. v = JObj kvs" by auto
    with tv show "tryParseJson t = v \<and> (\<exists>kvs. v = JObj kvs)" by simp
  qed
  have p4: "JSON_parse (p @ r) = Some v' \<and> \<not> list_all isJsonWs r \<longrightarrow> tryParseJson p = JNull" for p r
    using accepted_prefix by blast
  have p5: "JSON_parse s = Some v' \<and> endsWith s (js ''}'') \<and> strict_prefix p s \<longrightarrow> tryParseJson p = JNull"
  proof
    assume h: "JSON_parse s = Some v' \<and> endsWith s (js ''}'') \<and> strict_prefix p s"
    then obtain r where s: "s = p @ r" and r: "r \<noteq> []"
      by (auto simp: strict_prefix_def prefix_def)
    from h endsWith_brace have "last s = 0x7D" by blast
    with s r have "last r = 0x7D" by simp
    with r have "0x7D \<in> set r" by (metis last_in_set)
    moreover have "\<not> isJsonWs (0x7D :: unit16)" by (simp add: isJsonWs_def)
    ultimately have "\<not> list_all isJsonWs r" by (auto simp: list_all_iff)
    with p4 [of p r] h s show "tryParseJson p = JNull" by simp
  qed
  from p1 p2 p3 p4 p5 show ?thesis by blast
qed

text \<open>
  The witness is the example of the specification: the text without its closing brace
  yields \<^verbatim>\<open>null\<close>, the complete text the object.
\<close>

theorem tryParseJson_correct_witness:
  \<open>JSON_parse (trim (js ''{"title":"A"}'')) = Some (JObj [(js ''title'', JStr (js ''A''))]) \<and>
   startsWith (trim (js ''{"title":"A"}'')) (js ''{'') \<and>
   endsWith (trim (js ''{"title":"A"}'')) (js ''}'') \<and>
   tryParseJson (js ''{"title":"A"}'') = JObj [(js ''title'', JStr (js ''A''))] \<and>
   strict_prefix (js ''{"title":"A"'') (js ''{"title":"A"}'') \<and>
   tryParseJson (js ''{"title":"A"'') = JNull \<and>
   JSON_parse (trim (js ''{"title":'')) = None \<and>
   tryParseJson (js ''{"title":'') = JNull \<and>
   \<not> (startsWith (trim (js ''[1]'')) (js ''{'') \<and> endsWith (trim (js ''[1]'')) (js ''}'')) \<and>
   tryParseJson (js ''[1]'') = JNull\<close>
proof -
  let ?s = \<open>js ''{"title":"A"}''\<close>
  let ?p = \<open>js ''{"title":"A"''\<close>
  let ?v = \<open>JObj [(js ''title'', JStr (js ''A''))]\<close>
  have tr: "trim ?s = ?s" by (simp add: string_eval)
  have ps: "JSON_parse (trim ?s) = Some ?v" by (simp add: string_eval json_eval)
  have sw: "startsWith (trim ?s) (js ''{'')" by (simp add: string_eval)
  have ew: "endsWith (trim ?s) (js ''}'')" by (simp add: string_eval)
  have sp: "strict_prefix ?p ?s" by (simp add: js_def)
  have pn: \<open>JSON_parse (trim (js ''{"title":'')) = None\<close> by (simp add: string_eval json_eval)
  have nb: "\<not> (startsWith (trim (js ''[1]'')) (js ''{'') \<and> endsWith (trim (js ''[1]'')) (js ''}''))"
    by (simp add: string_eval)
  from tryParseJson_correct [where t = ?s and v = ?v] ps sw ew
  have c1: "tryParseJson ?s = ?v" by blast
  from tryParseJson_correct [where s = ?s and v' = ?v and p = ?p] ps sw ew sp tr
  have c2: "tryParseJson ?p = JNull" by simp
  from tryParseJson_correct [where t = \<open>js ''{"title":''\<close>] pn
  have c3: \<open>tryParseJson (js ''{"title":'') = JNull\<close> by blast
  from tryParseJson_correct [where t = "js ''[1]''"] nb
  have c4: "tryParseJson (js ''[1]'') = JNull" by blast
  from ps sw ew c1 sp c2 pn c3 nb c4 show ?thesis by blast
qed

end
